theory Spec2Isabelle
  imports Main
begin

text \<open>
  A model of the component runtime of the V4Fire client (\<open>core/component\<close>): the
  metadata store (\<open>createMeta\<close>), the hook runner (\<open>runHook\<close>, \<open>createSyncPromise\<close>),
  the watcher binder (\<open>bindWatchers\<close>) and the field initializer (\<open>initDataObject\<close>).
  The definitions come first, the proofs after them.
\<close>

section \<open>JavaScript values\<close>

text \<open>
  The values that the modelled functions move around are opaque to them: the model
  keeps the distinction the code tests (\<open>undefined\<close> against everything else,
  truthiness) and object identity (a reference), which is what cloning and the sharing
  of lists are about.
\<close>

datatype jsval = Undefined | Bool bool | Num int | Ref nat

text \<open>A \<open>Dictionary\<close>: reading a key that is absent gives \<open>undefined\<close>.\<close>

type_synonym dict = "string \<rightharpoonup> jsval"

definition lookup :: "dict \<Rightarrow> string \<Rightarrow> jsval" where
  "lookup d k = (case d k of None \<Rightarrow> Undefined | Some v \<Rightarrow> v)"

text \<open>JavaScript truthiness of a value (\<open>if (v)\<close>, \<open>!v\<close>).\<close>

fun truthy :: "jsval \<Rightarrow> bool" where
  "truthy Undefined = False"
| "truthy (Bool b) = b"
| "truthy (Num n) = (n \<noteq> 0)"
| "truthy (Ref a) = True"

text \<open>
  A JavaScript \<open>Set\<close> of strings keeps insertion order and has no duplicates; it is a
  list here. \<open>Set.prototype.add\<close> appends a new element, \<open>Set.prototype.delete\<close>
  removes the element and returns whether it was there (a boolean, not the set).
\<close>

definition Set_add :: "string list \<Rightarrow> string \<Rightarrow> string list" where
  "Set_add s x = (if x \<in> set s then s else s @ [x])"

definition Set_delete :: "string list \<Rightarrow> string \<Rightarrow> bool \<times> string list" where
  "Set_delete s x = (x \<in> set s, removeAll x s)"

text \<open>
  The errors the modelled functions throw: the \<open>ReferenceError\<close> of \<open>initDataObject\<close>
  for a name in \<open>after\<close> that is not a field, its \<open>Error\<close> for an atom that waits for a
  field that is not an atom (with the atom and the field waited for), and the
  \<open>TypeError\<close> of the language for a property read or a call on a value that has no
  such property (with the name of what was read).
\<close>

datatype error = ReferenceError string | Error string string | TypeError string

text \<open>
  The component context. Of the context object the modelled code writes \<open>hook\<close> (the
  current lifecycle stage, set by \<open>runHook\<close> and by the lifecycle callbacks) and
  \<open>$activeField\<close> (set by \<open>initDataObject\<close> before a field is initialised); everything
  else a callback reads from it is constant during a call and is part of the callback.
  The stages are the names the lifecycle callbacks of \<open>getComponent\<close> pass to
  \<open>runHook\<close>.
\<close>

datatype stage =
    beforeRuntime | beforeCreate | beforeDataCreate | created | beforeMount | mounted
  | beforeUpdate | updated | activated | deactivated | beforeDestroy | destroyed
  | errorCaptured

record ComponentInterface =
  hook :: "stage option"
  activeField :: "string option"

definition ctx0 :: ComponentInterface where
  "ctx0 = \<lparr>hook = None, activeField = None\<rparr>"

section \<open>The metadata store: \<open>createMeta\<close>\<close>

text \<open>
  \<open>createMeta\<close> is about object identity: the child must get lists of its own while it
  reads everything else through its prototype. The model is therefore an explicit heap.
  An address is an index into the heap, an object is a cell with its own properties (in
  insertion order, which is the order of \<open>Object.keys\<close>) and its prototype, an array is
  a cell with its elements. Allocation appends a cell, so a new address is never an
  address of the heap before.
\<close>

type_synonym addr = nat

datatype cell =
    Object (own: "(string \<times> jsval) list") (proto: "addr option")
  | Array (elems: "jsval list")

type_synonym heap = "cell list"

definition cellAt :: "heap \<Rightarrow> addr \<Rightarrow> cell option" where
  "cellAt h a = (if a < length h then Some (h ! a) else None)"

definition alloc :: "heap \<Rightarrow> cell \<Rightarrow> addr \<times> heap" where
  "alloc h c = (length h, h @ [c])"

text \<open>
  \<open>obj[k] = v\<close> for an object without setters: the own property is replaced where it
  is, or added at the end.
\<close>

fun put :: "string \<Rightarrow> jsval \<Rightarrow> (string \<times> jsval) list \<Rightarrow> (string \<times> jsval) list" where
  "put k v [] = [(k, v)]"
| "put k v (p # ps) = (if fst p = k then (k, v) # ps else p # put k v ps)"

definition setProp :: "heap \<Rightarrow> addr \<Rightarrow> string \<Rightarrow> jsval \<Rightarrow> heap" where
  "setProp h a k v =
     (case cellAt h a of
        Some (Object ps pr) \<Rightarrow> h[a := Object (put k v ps) pr]
      | _ \<Rightarrow> h)"

text \<open>Reading an own property of an object (\<open>undefined\<close> when it has none of the name).\<close>

definition ownGet :: "heap \<Rightarrow> addr \<Rightarrow> string \<Rightarrow> jsval" where
  "ownGet h a k =
     (case cellAt h a of
        Some (Object ps pr) \<Rightarrow> (case map_of ps k of None \<Rightarrow> Undefined | Some v \<Rightarrow> v)
      | _ \<Rightarrow> Undefined)"

text \<open>
  Reading a property: the own property, else the property of the prototype, else
  \<open>undefined\<close>. The prototype chain of a JavaScript object has no cycle; in a heap that
  has one the read does not return (\<open>None\<close>).
\<close>

partial_function (option) getProp :: "heap \<Rightarrow> addr \<Rightarrow> string \<Rightarrow> jsval option" where
  "getProp h a k =
     (case cellAt h a of
        Some (Object ps pr) \<Rightarrow>
          (case map_of ps k of
             Some v \<Rightarrow> Some v
           | None \<Rightarrow> (case pr of None \<Rightarrow> Some Undefined | Some p \<Rightarrow> getProp h p k))
      | _ \<Rightarrow> Some Undefined)"

text \<open>
  \<open>Object.keys(p)\<close> for the value of \<open>parent.hooks\<close> or \<open>parent.watchers\<close>. By the type
  \<open>ComponentMeta\<close> the value is a dictionary; \<open>Object.keys(undefined)\<close> is a
  \<open>TypeError\<close>, and the model also stops with one for a value of any other shape.
\<close>

definition keysOf :: "heap \<Rightarrow> jsval \<Rightarrow> error + string list" where
  "keysOf h p =
     (case p of
        Ref a \<Rightarrow>
          (case cellAt h a of
             Some (Object ps pr) \<Rightarrow> Inr (map fst ps)
           | _ \<Rightarrow> Inl (TypeError ''keys''))
      | _ \<Rightarrow> Inl (TypeError ''keys''))"

text \<open>
  The body of one \<open>for\<close> loop of \<open>createMeta\<close>, over the keys of the parent's dictionary
  \<open>p\<close>: \<open>v = p[key]\<close> (an own property, the key is one of \<open>Object.keys(p)\<close>); when
  \<open>v\<close> is truthy, \<open>obj[key] = v.slice()\<close>, a new array with the elements of \<open>v\<close>. A
  truthy value that is not an array has no \<open>slice\<close>: a \<open>TypeError\<close>.
\<close>

fun slices :: "heap \<Rightarrow> addr \<Rightarrow> addr \<Rightarrow> string list \<Rightarrow> error + heap" where
  "slices h obj p [] = Inr h"
| "slices h obj p (key # keys) =
     (let v = ownGet h p key in
      if truthy v then
        (case v of
           Ref b \<Rightarrow>
             (case cellAt h b of
                Some (Array xs) \<Rightarrow>
                  (case alloc h (Array xs) of
                     (b', h1) \<Rightarrow> slices (setProp h1 obj key (Ref b')) obj p keys)
              | _ \<Rightarrow> Inl (TypeError key))
         | _ \<Rightarrow> Inl (TypeError key))
      else slices h obj p keys)"

definition copyLists :: "heap \<Rightarrow> addr \<Rightarrow> jsval \<Rightarrow> error + heap" where
  "copyLists h obj p =
     (case keysOf h p of
        Inl e \<Rightarrow> Inl e
      | Inr keys \<Rightarrow> (case p of Ref a \<Rightarrow> slices h obj a keys | _ \<Rightarrow> Inr h))"

text \<open>
  \<open>createMeta(parent)\<close>: \<open>Object.create(parent)\<close> allocates the child, the literal
  allocates the two empty dictionaries, \<open>Object.assign\<close> makes them the child's own
  \<open>watchers\<close> and \<open>hooks\<close> (the literal object itself is dropped and not allocated
  here); then the hook lists and the watcher lists of the parent are copied. The result
  is the child's address and the new heap.
\<close>

definition createMeta :: "heap \<Rightarrow> addr \<Rightarrow> (error + addr \<times> heap) option" where
  "createMeta h parent =
     (case alloc h (Object [] (Some parent)) of (meta, h1) \<Rightarrow>
      case alloc h1 (Object [] None) of (w, h2) \<Rightarrow>
      case alloc h2 (Object [] None) of (hk, h3) \<Rightarrow>
      let h4 = setProp (setProp h3 meta ''watchers'' (Ref w)) meta ''hooks'' (Ref hk) in
      case getProp h4 parent ''hooks'' of
        None \<Rightarrow> None
      | Some p \<Rightarrow>
          (case copyLists h4 hk p of
             Inl e \<Rightarrow> Some (Inl e)
           | Inr h5 \<Rightarrow>
               (case getProp h5 parent ''watchers'' of
                  None \<Rightarrow> None
                | Some pw \<Rightarrow>
                    (case copyLists h5 w pw of
                       Inl e \<Rightarrow> Some (Inl e)
                     | Inr h6 \<Rightarrow> Some (Inr (meta, h6))))))"

text \<open>\<open>l.push(x)\<close>: appending to the array that the value \<open>l\<close> refers to.\<close>

definition push :: "heap \<Rightarrow> jsval \<Rightarrow> jsval \<Rightarrow> error + heap" where
  "push h l x =
     (case l of
        Ref a \<Rightarrow>
          (case cellAt h a of
             Some (Array xs) \<Rightarrow> Inr (h[a := Array (xs @ [x])])
           | _ \<Rightarrow> Inl (TypeError ''push''))
      | _ \<Rightarrow> Inl (TypeError ''push''))"

text \<open>
  \<open>m[dn][s]\<close> for a metadata object \<open>m\<close>, the name \<open>dn\<close> of one of its dictionaries
  and a key \<open>s\<close>: the own entry of the dictionary that \<open>m\<close> has or inherits.
\<close>

definition entryOf :: "heap \<Rightarrow> addr \<Rightarrow> string \<Rightarrow> string \<Rightarrow> jsval" where
  "entryOf h m dn s = (case getProp h m dn of Some (Ref d) \<Rightarrow> ownGet h d s | _ \<Rightarrow> Undefined)"

subsection \<open>Well-formed heaps\<close>

text \<open>
  A JavaScript heap has no dangling reference: every reference and every prototype in a
  cell is an address of the heap.
\<close>

fun refsOf :: "cell \<Rightarrow> jsval list" where
  "refsOf (Object ps pr) = (case pr of None \<Rightarrow> [] | Some p \<Rightarrow> [Ref p]) @ map snd ps"
| "refsOf (Array xs) = xs"

definition closedHeap :: "heap \<Rightarrow> bool" where
  "closedHeap h =
     list_all (\<lambda>c. list_all (\<lambda>v. case v of Ref a \<Rightarrow> a < length h | _ \<Rightarrow> True) (refsOf c)) h"

text \<open>A heap that has the cells of \<open>h\<close> at the addresses of \<open>h\<close>.\<close>

definition extends :: "heap \<Rightarrow> heap \<Rightarrow> bool" where
  "extends h h1 = (length h \<le> length h1 \<and> (\<forall>a<length h. h1 ! a = h ! a))"

text \<open>
  The invariant of the copying loop: every own entry of \<open>obj\<close> is a reference to an
  array allocated after \<open>h0\<close> that has the elements of the array of \<open>h0\<close> that the
  parent's dictionary \<open>p\<close> has for the same key.
\<close>

definition copied :: "heap \<Rightarrow> addr \<Rightarrow> addr \<Rightarrow> heap \<Rightarrow> bool" where
  "copied h0 p obj hc =
     (\<forall>s. ownGet hc obj s \<noteq> Undefined \<longrightarrow>
        (\<exists>b b' xs. ownGet hc obj s = Ref b' \<and> ownGet h0 p s = Ref b \<and>
           cellAt h0 b = Some (Array xs) \<and> length h0 \<le> b' \<and> b' \<noteq> obj \<and>
           cellAt hc b' = Some (Array xs)))"

text \<open>
  What the type \<open>ComponentMeta\<close> says of the dictionary \<open>dn\<close> (\<open>hooks\<close> or \<open>watchers\<close>)
  of the metadata object \<open>m\<close>: it is an object, and each of its entries is a list or
  is falsy.
\<close>

definition listsOnly :: "heap \<Rightarrow> addr \<Rightarrow> string \<Rightarrow> bool" where
  "listsOnly h m dn =
     (\<exists>d ps pr. getProp h m dn = Some (Ref d) \<and> cellAt h d = Some (Object ps pr) \<and>
        (\<forall>s. truthy (ownGet h d s) \<longrightarrow>
           (\<exists>b xs. ownGet h d s = Ref b \<and> cellAt h b = Some (Array xs))))"

subsection \<open>A concrete heap\<close>

text \<open>
  A parent at address 0 with \<open>props\<close> (5), \<open>hooks\<close> (1: \<open>created\<close> is the array 3,
  \<open>mounted\<close> is \<open>undefined\<close>) and \<open>watchers\<close> (2: \<open>foo\<close> is the array 4); and the heap
  after \<open>createMeta\<close>: the child 6, its \<open>watchers\<close> 7 and \<open>hooks\<close> 8, the copies 9 and 10.
\<close>

definition heapP :: heap where
  "heapP =
     [Object [(''props'', Ref 5), (''hooks'', Ref 1), (''watchers'', Ref 2)] None,
      Object [(''created'', Ref 3), (''mounted'', Undefined)] None,
      Object [(''foo'', Ref 4)] None,
      Array [Num 1, Num 2],
      Array [Num 3],
      Object [] None]"

definition heapC :: heap where
  "heapC =
     [Object [(''props'', Ref 5), (''hooks'', Ref 1), (''watchers'', Ref 2)] None,
      Object [(''created'', Ref 3), (''mounted'', Undefined)] None,
      Object [(''foo'', Ref 4)] None,
      Array [Num 1, Num 2],
      Array [Num 3],
      Object [] None,
      Object [(''watchers'', Ref 7), (''hooks'', Ref 8)] (Some 0),
      Object [(''foo'', Ref 10)] None,
      Object [(''created'', Ref 9)] None,
      Array [Num 1, Num 2],
      Array [Num 3]]"

section \<open>The hook runner: \<open>runHook\<close>\<close>

text \<open>
  A hook descriptor \<open>{name, fn, after}\<close>. Of the function the runner tests one thing,
  whether what it returns is a promise: \<open>fn\<close> is that. \<open>after\<close> is the set of the
  names to wait for, empty when there is none; it is an object of the descriptor, and
  the descriptors are shared by every call of \<open>runHook\<close> on the metadata.
\<close>

datatype ret = Plain | Promise

record Hook =
  name :: "string option"
  fn :: ret
  after :: "string list"

text \<open>
  \<open>el.name || Math.random().toString()\<close>, the name a hook emits: its name, or for a
  hook without a name (or with the empty one) a random name, which is taken to be a name
  that nothing waits for and is \<open>None\<close> here.
\<close>

definition emitted :: "Hook \<Rightarrow> string option" where
  "emitted el = (case name el of None \<Rightarrow> None | Some s \<Rightarrow> if s \<noteq> [] then Some s else None)"

text \<open>
  What \<open>runHook\<close> and \<open>bindWatchers\<close> read of a metadata object: the hook lists by
  stage and the watcher lists by key (a \<open>Dictionary\<close>, whose values may be
  \<open>undefined\<close>), in the order of \<open>Object.keys\<close>. The watcher descriptors are opaque.
\<close>

record 'w ComponentMeta =
  hooks :: "stage \<Rightarrow> Hook list option"
  watchers :: "(string \<times> 'w list option) list"

text \<open>
  \<open>el.event.delete(event).size\<close>: \<open>Set.prototype.delete\<close> returns a boolean, and a
  boolean has no property \<open>size\<close>: the value read is \<open>undefined\<close>.
\<close>

definition boolean_size :: "bool \<Rightarrow> jsval" where
  "boolean_size b = Undefined"

text \<open>
  The local object \<open>event\<close>: \<open>queue\<close>, the callbacks of the hooks that wait for nothing,
  and \<open>events\<close>, for a name the entries \<open>{event, cb}\<close> of the hooks that wait for it. The
  callback of a hook is the index of the hook in the list; the \<open>event\<close> of an entry is
  the \<open>after\<close> set of that hook, the same object.
\<close>

type_synonym listeners = "(string \<times> nat list) list"

record event =
  queue :: "nat list"
  events :: listeners

text \<open>\<open>this.events[v] = this.events[v] || []; this.events[v].push({event, cb})\<close>.\<close>

definition addListener :: "listeners \<Rightarrow> string \<Rightarrow> nat \<Rightarrow> listeners" where
  "addListener m v c =
     (case map_of m v of
        None \<Rightarrow> m @ [(v, [c])]
      | Some l \<Rightarrow> map (\<lambda>(k, l). if k = v then (k, l @ [c]) else (k, l)) m)"

text \<open>\<open>event.on(event, cb)\<close>.\<close>

definition event_on :: "event \<Rightarrow> string list \<Rightarrow> nat \<Rightarrow> event" where
  "event_on ev s c =
     (if s \<noteq> [] then ev\<lparr>events := foldl (\<lambda>m v. addListener m v c) (events ev) s\<rparr>
      else ev\<lparr>queue := queue ev @ [c]\<rparr>)"

text \<open>
  The state of one call of \<open>runHook\<close>: the hook descriptors with their \<open>after\<close> sets as
  they are now, \<open>event.events\<close>, the hooks whose function has been called, in the order
  of the calls, and the hooks whose function returned a promise that is not yet resolved.
\<close>

record run =
  hookList :: "Hook list"
  listeners :: listeners
  calls :: "nat list"
  pending :: "nat list"

text \<open>
  \<open>cb\<close> is the callback that \<open>runHook\<close> registers for hook \<open>i\<close>: it calls the function
  of the hook; when that returns a promise, the callback returns \<open>res.then(emit)\<close> and
  the emit is left for the time the promise is resolved; otherwise it emits the name of
  the hook at once. \<open>emit\<close> is \<open>event.emit\<close>: for every entry of the name it deletes the
  name from the \<open>after\<close> set of the entry and calls the callback of the entry when
  \<open>!el.event.delete(event).size\<close> holds. The boolean a function returns is whether its
  result is a promise. The calls nest, and a hook that waits for itself makes them nest
  without end: the first argument bounds the depth, and \<open>None\<close> is a call that exceeds
  it.
\<close>

fun cb :: "nat \<Rightarrow> nat \<Rightarrow> run \<Rightarrow> (bool \<times> run) option"
and emit :: "nat \<Rightarrow> string option \<Rightarrow> run \<Rightarrow> (bool \<times> run) option"
and emitLoop :: "nat \<Rightarrow> string \<Rightarrow> nat list \<Rightarrow> bool \<Rightarrow> run \<Rightarrow> (bool \<times> run) option"
where
  "cb 0 i r = None"
| "cb (Suc n) i r =
     (let r1 = r\<lparr>calls := calls r @ [i]\<rparr> in
      case fn (hookList r ! i) of
        Promise \<Rightarrow> Some (True, r1\<lparr>pending := pending r1 @ [i]\<rparr>)
      | Plain \<Rightarrow> emit n (emitted (hookList r ! i)) r1)"
| "emit n None r = Some (False, r)"
| "emit n (Some e) r =
     (case map_of (listeners r) e of
        None \<Rightarrow> Some (False, r)
      | Some l \<Rightarrow> emitLoop n e l False r)"
| "emitLoop n e [] b r = Some (b, r)"
| "emitLoop n e (i # is) b r =
     (case Set_delete (after (hookList r ! i)) e of
        (d, s) \<Rightarrow>
          (let r1 = r\<lparr>hookList := (hookList r)[i := (hookList r ! i)\<lparr>after := s\<rparr>]\<rparr> in
           if \<not> truthy (boolean_size d) then
             (case cb n i r1 of
                None \<Rightarrow> None
              | Some (p, r2) \<Rightarrow> emitLoop n e is (b \<or> p) r2)
           else emitLoop n e is b r1))"

text \<open>\<open>event.fire()\<close>: the callbacks of the queue, in order.\<close>

fun fire :: "nat \<Rightarrow> nat list \<Rightarrow> bool \<Rightarrow> run \<Rightarrow> (bool \<times> run) option" where
  "fire n [] b r = Some (b, r)"
| "fire n (i # is) b r =
     (case cb n i r of
        None \<Rightarrow> None
      | Some (p, r1) \<Rightarrow> fire n is (b \<or> p) r1)"

text \<open>
  The promise that the function of hook \<open>i\<close> returned is fulfilled: \<open>then(emit)\<close> runs
  the emit of the hook's name.
\<close>

definition settle :: "nat \<Rightarrow> nat \<Rightarrow> run \<Rightarrow> (bool \<times> run) option" where
  "settle n i r =
     (if i \<in> set (pending r)
      then emit n (emitted (hookList r ! i)) (r\<lparr>pending := remove1 i (pending r)\<rparr>)
      else Some (False, r))"

subsection \<open>\<open>createSyncPromise\<close>\<close>

text \<open>
  The object \<open>createSyncPromise(val, err)\<close> is its two arguments and three methods. A
  callback is a function of its argument that returns a value (\<open>Inr\<close>) or throws one
  (\<open>Inl\<close>). A method call is modelled by its outcome: the callbacks invoked, in order,
  each with its argument, and the object returned (\<open>Inr\<close>) or the value thrown to the
  caller (\<open>Inl\<close>).
\<close>

record sync =
  val :: jsval
  err :: jsval

definition createSyncPromise :: "jsval \<Rightarrow> jsval \<Rightarrow> sync" where
  "createSyncPromise v e = \<lparr>val = v, err = e\<rparr>"

type_synonym callback = "jsval \<Rightarrow> jsval + jsval"

datatype handler = Resolve | Reject | Catch | Finally

record outcome =
  invoked :: "(handler \<times> jsval) list"
  result :: "jsval + sync"

text \<open>
  The \<open>catch\<close> block of \<open>then\<close>:
  \<open>return createSyncPromise(undefined, reject ? reject(err) : err)\<close>.
\<close>

definition sync_rejected :: "(handler \<times> jsval) list \<Rightarrow> callback option \<Rightarrow> jsval \<Rightarrow> outcome" where
  "sync_rejected sofar reject e =
     (case reject of
        None \<Rightarrow> \<lparr>invoked = sofar, result = Inr (createSyncPromise Undefined e)\<rparr>
      | Some f \<Rightarrow>
          (case f e of
             Inr v \<Rightarrow> \<lparr>invoked = sofar @ [(Reject, e)],
                        result = Inr (createSyncPromise Undefined v)\<rparr>
           | Inl x \<Rightarrow> \<lparr>invoked = sofar @ [(Reject, e)], result = Inl x\<rparr>))"

text \<open>\<open>then(resolve, reject)\<close>; an argument that is left out is \<open>None\<close>.\<close>

definition sync_then :: "sync \<Rightarrow> callback option \<Rightarrow> callback option \<Rightarrow> outcome" where
  "sync_then p resolve reject =
     (if err p \<noteq> Undefined then
        (case reject of
           None \<Rightarrow> \<lparr>invoked = [], result = Inr (createSyncPromise Undefined (err p))\<rparr>
         | Some f \<Rightarrow>
             (case f (err p) of
                Inr v \<Rightarrow> \<lparr>invoked = [(Reject, err p)],
                           result = Inr (createSyncPromise Undefined v)\<rparr>
              | Inl x \<Rightarrow> sync_rejected [(Reject, err p)] reject x))
      else
        (case resolve of
           None \<Rightarrow> \<lparr>invoked = [], result = Inr (createSyncPromise (val p) Undefined)\<rparr>
         | Some f \<Rightarrow>
             (case f (val p) of
                Inr v \<Rightarrow> \<lparr>invoked = [(Resolve, val p)],
                           result = Inr (createSyncPromise v Undefined)\<rparr>
              | Inl x \<Rightarrow> sync_rejected [(Resolve, val p)] reject x)))"

text \<open>\<open>catch: (cb) => createSyncPromise(undefined, cb(err))\<close>.\<close>

definition sync_catch :: "sync \<Rightarrow> callback \<Rightarrow> outcome" where
  "sync_catch p c =
     (case c (err p) of
        Inr v \<Rightarrow> \<lparr>invoked = [(Catch, err p)], result = Inr (createSyncPromise Undefined v)\<rparr>
      | Inl x \<Rightarrow> \<lparr>invoked = [(Catch, err p)], result = Inl x\<rparr>)"

text \<open>\<open>finally: (cb) => createSyncPromise(cb())\<close>.\<close>

definition sync_finally :: "sync \<Rightarrow> callback \<Rightarrow> outcome" where
  "sync_finally p c =
     (case c Undefined of
        Inr v \<Rightarrow> \<lparr>invoked = [(Finally, Undefined)], result = Inr (createSyncPromise v Undefined)\<rparr>
      | Inl x \<Rightarrow> \<lparr>invoked = [(Finally, Undefined)], result = Inl x\<rparr>)"

subsection \<open>\<open>runHook\<close>\<close>

text \<open>
  What \<open>runHook\<close> returns: the object of \<open>createSyncPromise\<close>, or a promise of the
  language (of \<open>Promise.all\<close>).
\<close>

datatype signal = SyncPromise sync | RealPromise

text \<open>
  \<open>runHook(hook, meta, ctx, ...args)\<close>, the arguments of the hooks being part of their
  functions and the logging left out. Reading \<open>length\<close> of a list that the metadata
  does not have is a \<open>TypeError\<close>. The result is the signal, the context and the state
  of the run at the return; \<open>None\<close> is a run whose calls nest deeper than \<open>n\<close>.
\<close>

definition runHook ::
  "nat \<Rightarrow> stage \<Rightarrow> 'w ComponentMeta \<Rightarrow> ComponentInterface
     \<Rightarrow> (error + signal \<times> ComponentInterface \<times> run) option" where
  "runHook n hk meta c =
     (let c1 = c\<lparr>hook := Some hk\<rparr> in
      case hooks meta hk of
        None \<Rightarrow> Some (Inl (TypeError ''length''))
      | Some hs \<Rightarrow>
          if length hs = 0 then
            Some (Inr (SyncPromise (createSyncPromise Undefined Undefined), c1,
                       \<lparr>hookList = hs, listeners = [], calls = [], pending = []\<rparr>))
          else
            (let ev = foldl (\<lambda>ev i. event_on ev (after (hs ! i)) i)
                        \<lparr>queue = [], events = []\<rparr> [0..<length hs]
             in case fire n (queue ev) False
                       \<lparr>hookList = hs, listeners = events ev, calls = [], pending = []\<rparr> of
                  None \<Rightarrow> None
                | Some (p, r) \<Rightarrow>
                    Some (Inr (if p then RealPromise
                               else SyncPromise (createSyncPromise Undefined Undefined),
                               c1, r))))"


subsection \<open>Concrete hook lists\<close>

text \<open>
  The hooks of the specification's example: \<open>A\<close> without dependencies, \<open>B\<close> and \<open>C\<close>
  after \<open>A\<close>; the function of \<open>A\<close> returns a promise or not.
\<close>

definition hooksABC :: "ret \<Rightarrow> Hook list" where
  "hooksABC a =
     [\<lparr>name = Some ''A'', fn = a, after = []\<rparr>,
      \<lparr>name = Some ''B'', fn = Plain, after = [''A'']\<rparr>,
      \<lparr>name = Some ''C'', fn = Plain, after = [''A'']\<rparr>]"

text \<open>The same descriptors after a run: the \<open>after\<close> sets of \<open>B\<close> and \<open>C\<close> are empty.\<close>

definition hooksABC2 :: "Hook list" where
  "hooksABC2 =
     [\<lparr>name = Some ''A'', fn = Promise, after = []\<rparr>,
      \<lparr>name = Some ''B'', fn = Plain, after = []\<rparr>,
      \<lparr>name = Some ''C'', fn = Plain, after = []\<rparr>]"

text \<open>\<open>A\<close> and \<open>B\<close> without dependencies, \<open>C\<close> after both.\<close>

definition hooksJoin :: "Hook list" where
  "hooksJoin =
     [\<lparr>name = Some ''A'', fn = Plain, after = []\<rparr>,
      \<lparr>name = Some ''B'', fn = Plain, after = []\<rparr>,
      \<lparr>name = Some ''C'', fn = Plain, after = [''A'', ''B'']\<rparr>]"

text \<open>A metadata object with the given hooks for \<open>created\<close> and no other hook.\<close>

definition metaOf :: "Hook list \<Rightarrow> unit ComponentMeta" where
  "metaOf hs = \<lparr>hooks = (\<lambda>s. if s = created then Some hs else Some []), watchers = []\<rparr>"

section \<open>The watcher binder: \<open>bindWatchers\<close>\<close>

text \<open>
  \<open>customWatcherRgxp = /^([!?]?)([^!?:]*):(.*)/\<close>, as a function from the key to the
  three groups of the match. The first group is a leading \<open>!\<close> or \<open>?\<close> or empty, the
  second runs up to the first \<open>!\<close>, \<open>?\<close> or \<open>:\<close> after it, which must be a \<open>:\<close>, the
  third is the rest of the line (\<open>.\<close> does not match a line terminator). No other
  split of the key matches.
\<close>

definition marker :: "char \<Rightarrow> bool" where
  "marker c = (c = CHR ''!'' \<or> c = CHR ''?'')"

definition lineEnd :: "char \<Rightarrow> bool" where
  "lineEnd c = (c = CHR 0x0A \<or> c = CHR 0x0D)"

definition customWatcherRgxp :: "string \<Rightarrow> (string \<times> string \<times> string) option" where
  "customWatcherRgxp s =
     (case (case s of [] \<Rightarrow> ([], s) | c # cs \<Rightarrow> if marker c then ([c], cs) else ([], s)) of
        (m, r) \<Rightarrow>
          (case dropWhile (\<lambda>c. \<not> marker c \<and> c \<noteq> CHR '':'') r of
             [] \<Rightarrow> None
           | c # rest \<Rightarrow>
               if c = CHR '':''
               then Some (m, takeWhile (\<lambda>c. \<not> marker c \<and> c \<noteq> CHR '':'') r,
                          takeWhile (\<lambda>c. \<not> lineEnd c) rest)
               else None))"

text \<open>
  What the binder takes from its surroundings: the context as an object to subscribe on
  (\<open>self\<close>), the path lookup \<open>ctxObj.get(l) || globalObj.get(l)\<close> (\<open>getPath\<close>, \<open>None\<close>
  when both are falsy), whether an object has a function \<open>on\<close> or \<open>addListener\<close>
  (\<open>emitter\<close>), and the string function \<open>dasherize\<close>.
\<close>

record 'r scope =
  self :: 'r
  getPath :: "string \<Rightarrow> 'r option"
  emitter :: "'r \<Rightarrow> bool"
  dasherize :: "string \<Rightarrow> string"

text \<open>
  The local variables of the loop over the keys, as functions of the key:
  \<open>onBeforeCreate\<close>, \<open>onMounted\<close>, \<open>root\<close> and the new value of \<open>key\<close>.
\<close>

definition onBeforeCreate :: "string \<Rightarrow> bool" where
  "onBeforeCreate k =
     (case customWatcherRgxp k of None \<Rightarrow> False | Some (m, l, rest) \<Rightarrow> m = ''!'')"

definition onMounted :: "string \<Rightarrow> bool" where
  "onMounted k =
     (case customWatcherRgxp k of None \<Rightarrow> False | Some (m, l, rest) \<Rightarrow> m = ''?'')"

definition rootOf :: "'r scope \<Rightarrow> string \<Rightarrow> 'r" where
  "rootOf sc k =
     (case customWatcherRgxp k of
        None \<Rightarrow> self sc
      | Some (m, l, rest) \<Rightarrow>
          if l \<noteq> [] then (case getPath sc l of Some r \<Rightarrow> r | None \<Rightarrow> self sc) else self sc)"

definition keyOf :: "'r scope \<Rightarrow> string \<Rightarrow> string" where
  "keyOf sc k =
     (case customWatcherRgxp k of
        None \<Rightarrow> k
      | Some (m, l, rest) \<Rightarrow> if l \<noteq> [] then rest else dasherize sc rest)"

text \<open>The condition of the \<open>continue\<close>.\<close>

definition skipped :: "stage \<Rightarrow> string \<Rightarrow> 'w list option \<Rightarrow> bool" where
  "skipped hk k ws =
     (hk = beforeCreate \<and> \<not> onBeforeCreate k \<or>
      hk = created \<and> (onMounted k \<or> onBeforeCreate k) \<or>
      hk = mounted \<and> \<not> onMounted k \<or>
      ws = None)"

text \<open>
  What the binder does for a watcher \<open>el\<close> of a key: \<open>ctx.$on(key, handler)\<close>,
  \<open>$a.on(root, key, handler, eventParams, ...el.args)\<close>, or
  \<open>ctx.$watch(key, {deep, immediate, handler})\<close> with its \<open>$a.worker(unwatch, group)\<close>.
  The handler, the label and the group are made from the descriptor and stand for it
  here. A handler that is a promise is awaited first, so that its subscription is made
  when it is resolved.
\<close>

datatype ('r, 'w) attach =
    CtxOn string 'w
  | AsyncOn 'r string 'w
  | Watch string 'w

text \<open>The inner loop: the subscriptions for the watchers of one key.\<close>

definition attachAll :: "'r scope \<Rightarrow> string \<Rightarrow> 'w list option \<Rightarrow> ('r, 'w) attach list" where
  "attachAll sc k ws =
     map (\<lambda>el.
            if customWatcherRgxp k \<noteq> None then
              (if rootOf sc k = self sc \<and> \<not> emitter sc (rootOf sc k) then CtxOn (keyOf sc k) el
               else AsyncOn (rootOf sc k) (keyOf sc k) el)
            else Watch (keyOf sc k) el)
         (case ws of None \<Rightarrow> [] | Some l \<Rightarrow> l)"

text \<open>
  \<open>bindWatchers(ctx, eventCtx)\<close>: the subscriptions it makes, in order. The stage is
  \<open>ctx.hook\<close>, the watchers are those of \<open>ctx.meta\<close>.
\<close>

definition bindWatchers ::
  "'r scope \<Rightarrow> ComponentInterface \<Rightarrow> 'w ComponentMeta \<Rightarrow> ('r, 'w) attach list" where
  "bindWatchers sc c meta =
     (case hook c of
        None \<Rightarrow> []
      | Some hk \<Rightarrow>
          if hk \<noteq> beforeCreate \<and> hk \<noteq> created \<and> hk \<noteq> mounted then []
          else concat (map (\<lambda>(k, ws). if skipped hk k ws then [] else attachAll sc k ws)
                         (watchers meta)))"

subsection \<open>A concrete set of watchers\<close>

text \<open>
  The context is the object 0 and has no \<open>on\<close>; the path \<open>remote\<close> leads to the object
  1, an emitter. The watchers are numbers.
\<close>

definition scope0 :: "nat scope" where
  "scope0 = \<lparr>self = 0, getPath = (\<lambda>l. if l = ''remote'' then Some 1 else None),
             emitter = (\<lambda>r. r = 1), dasherize = (\<lambda>s. s)\<rparr>"

definition watchers0 :: "(string \<times> nat list option) list" where
  "watchers0 =
     [(''foo'', Some [10, 11]),
      (''!remote:init'', Some [20]),
      (''?remote:path.to.value'', Some [30]),
      ('':local'', Some [40]),
      (''gone'', None)]"

definition meta0 :: "nat ComponentMeta" where
  "meta0 = \<lparr>hooks = (\<lambda>s. None), watchers = watchers0\<rparr>"

text \<open>A metadata object with one ordinary watched field and two watchers on it.\<close>

definition metaFoo :: "nat ComponentMeta" where
  "metaFoo = \<lparr>hooks = (\<lambda>s. None), watchers = [(''foo'', Some [10, 11])]\<rparr>"

section \<open>The field initializer: \<open>initDataObject\<close>\<close>

text \<open>
  A field descriptor (\<open>ComponentField\<close>, \<open>SystemField\<close>): \<open>init\<close> is absent or a
  callback of the context and the data object, \<open>default\<close> is \<open>undefined\<close> when
  the field has no static default, \<open>after\<close> is the set of field names to wait for.
\<close>

record ComponentField =
  atom :: bool
  init :: "(ComponentInterface \<Rightarrow> dict \<Rightarrow> jsval) option"
  default :: jsval
  after :: "string list"

type_synonym fields = "(string \<times> ComponentField) list"

text \<open>
  The state of the sweeps: the context, the data object and the two queues. An exception
  leaves the objects as they are at the throw, so an error carries the state reached.
\<close>

record state =
  ctx :: ComponentInterface
  data :: dict
  queue :: "string list"
  atomQueue :: "string list"

text \<open>
  ``Sorting atoms'': the keys of \<open>fields\<close> in the order of \<open>Object.keys\<close>; a field
  that is an atom, or has no \<open>init\<close> and a default or a value in the class instance,
  is put in front (\<open>unshift\<close>), every other field at the end (\<open>push\<close>).
\<close>

definition sortAtom :: "dict \<Rightarrow> string list \<Rightarrow> string \<times> ComponentField \<Rightarrow> string list" where
  "sortAtom inst fieldList p =
     (case p of (key, el) \<Rightarrow>
        if atom el \<or> (init el = None \<and> (default el \<noteq> Undefined \<or> key \<in> dom inst))
        then key # fieldList
        else fieldList @ [key])"

definition sortAtoms :: "fields \<Rightarrow> dict \<Rightarrow> string list" where
  "sortAtoms fs inst = foldl (sortAtom inst) [] fs"

text \<open>
  The loop over \<open>el.after.values()\<close> of one field: it throws at a name that is no
  field and at a field that is not an atom when the waiting field is one, it stops
  (\<open>Wait\<close>: the key goes to the queues, \<open>canInit = false\<close>, \<open>break\<close>) at the first
  name that is not in \<open>data\<close>, and it runs through otherwise.
\<close>

datatype scan = Through | Wait | Throw error

fun scanAfter :: "fields \<Rightarrow> dict \<Rightarrow> string \<Rightarrow> bool \<Rightarrow> string list \<Rightarrow> scan" where
  "scanAfter fs d key a [] = Through"
| "scanAfter fs d key a (waitFieldKey # rest) =
     (case map_of fs waitFieldKey of
        None \<Rightarrow> Throw (ReferenceError waitFieldKey)
      | Some waitField \<Rightarrow>
          if a \<and> \<not> atom waitField then Throw (Error key waitFieldKey)
          else if waitFieldKey \<notin> dom d then Wait
          else scanAfter fs d key a rest)"

text \<open>
  The body of \<open>if (canInit)\<close>. \<open>fastClone\<close> stands for \<open>Object.fastClone\<close>, a
  library function that is not part of the source: it is a parameter of the model.
\<close>

definition initField ::
  "(jsval \<Rightarrow> jsval) \<Rightarrow> dict \<Rightarrow> string \<Rightarrow> ComponentField \<Rightarrow> state \<Rightarrow> state" where
  "initField fastClone inst key el st =
     (let c = (ctx st)\<lparr>activeField := Some key\<rparr>;
          st1 = st\<lparr>ctx := c, queue := snd (Set_delete (queue st) key),
                   atomQueue := snd (Set_delete (atomQueue st) key)\<rparr>;
          val = (case init el of None \<Rightarrow> Undefined | Some f \<Rightarrow> f c (data st1))
      in if val = Undefined then
           if lookup (data st1) key = Undefined then
             st1\<lparr>data := (data st1)(key \<mapsto>
                    (if default el \<noteq> Undefined then default el
                     else fastClone (lookup inst key)))\<rparr>
           else st1
         else st1\<lparr>data := (data st1)(key \<mapsto> val)\<rparr>)"

text \<open>One iteration of the \<open>for\<close> loop over \<open>fieldList\<close>.\<close>

definition visit ::
  "(jsval \<Rightarrow> jsval) \<Rightarrow> fields \<Rightarrow> dict \<Rightarrow> string \<Rightarrow> state \<Rightarrow> (error \<times> state) + state" where
  "visit fastClone fs inst key st =
     (if key \<in> dom (data st) then Inr st
      else case map_of fs key of
        None \<Rightarrow> Inl (TypeError key, st)
      | Some el \<Rightarrow>
          (let canInit = (atom el \<or> atomQueue st = []) in
           case scanAfter fs (data st) key (atom el) (after el) of
             Throw e \<Rightarrow> Inl (e, st)
           | Wait \<Rightarrow>
               Inr (st\<lparr>queue := Set_add (queue st) key,
                       atomQueue := (if atom el then Set_add (atomQueue st) key
                                     else atomQueue st)\<rparr>)
           | Through \<Rightarrow> if canInit then Inr (initField fastClone inst key el st) else Inr st))"

text \<open>The \<open>for\<close> loop: one sweep over the field list.\<close>

fun sweep ::
  "(jsval \<Rightarrow> jsval) \<Rightarrow> fields \<Rightarrow> dict \<Rightarrow> string list \<Rightarrow> state \<Rightarrow> (error \<times> state) + state" where
  "sweep fastClone fs inst [] st = Inr st"
| "sweep fastClone fs inst (key # keys) st =
     (case visit fastClone fs inst key st of
        Inl e \<Rightarrow> Inl e
      | Inr st' \<Rightarrow> sweep fastClone fs inst keys st')"

text \<open>
  The \<open>while (true)\<close> loop: sweeps are repeated until both queues are empty after one.
  The loop has no other exit, so the model is a partial function: \<open>None\<close> is a run
  that never returns.
\<close>

partial_function (option) sweeps ::
  "(jsval \<Rightarrow> jsval) \<Rightarrow> fields \<Rightarrow> dict \<Rightarrow> string list \<Rightarrow> state \<Rightarrow> ((error \<times> state) + state) option" where
  "sweeps fastClone fs inst fieldList st =
     (case sweep fastClone fs inst fieldList st of
        Inl e \<Rightarrow> Some (Inl e)
      | Inr st' \<Rightarrow>
          if atomQueue st' = [] \<and> queue st' = [] then Some (Inr st')
          else sweeps fastClone fs inst fieldList st')"

text \<open>
  \<open>initDataObject(fields, ctx, instance, data)\<close>: the result is \<open>None\<close> when the call
  never returns, an error with the state at the throw, or the context and the data
  object at the return.
\<close>

definition initDataObject ::
  "(jsval \<Rightarrow> jsval) \<Rightarrow> fields \<Rightarrow> ComponentInterface \<Rightarrow> dict \<Rightarrow> dict
     \<Rightarrow> ((error \<times> state) + ComponentInterface \<times> dict) option" where
  "initDataObject fastClone fs c inst d =
     (case sweeps fastClone fs inst (sortAtoms fs inst)
             \<lparr>ctx = c, data = d, queue = [], atomQueue = []\<rparr> of
        None \<Rightarrow> None
      | Some (Inl e) \<Rightarrow> Some (Inl e)
      | Some (Inr st) \<Rightarrow> Some (Inr (ctx st, data st)))"

subsection \<open>Predicates used in the statements about \<open>initDataObject\<close>\<close>

text \<open>
  The errors the field initializer can raise on a field map: a \<open>ReferenceError\<close> for a
  name that some field waits for and that is no field, an \<open>Error\<close> for an atom and a
  field it waits for that is not an atom.
\<close>

definition raised :: "fields \<Rightarrow> error \<Rightarrow> bool" where
  "raised fs e =
     (case e of
        ReferenceError w \<Rightarrow>
          map_of fs w = None \<and> (\<exists>k el. map_of fs k = Some el \<and> w \<in> set (after el))
      | Error k w \<Rightarrow>
          (\<exists>el wel. map_of fs k = Some el \<and> atom el \<and> w \<in> set (after el)
             \<and> map_of fs w = Some wel \<and> \<not> atom wel)
      | TypeError k \<Rightarrow> False)"

text \<open>
  A set of fields none of which can pass the scan of its \<open>after\<close> set as long as no
  field of the set is in \<open>data\<close>.
\<close>

definition stuck :: "fields \<Rightarrow> string set \<Rightarrow> bool" where
  "stuck fs S = (\<forall>k\<in>S. \<forall>d el. dom d \<inter> S = {} \<longrightarrow> map_of fs k = Some el \<longrightarrow>
       scanAfter fs d k (atom el) (after el) \<noteq> Through)"

text \<open>The queues hold fields that are not in \<open>data\<close>, the atom queue holds atoms.\<close>

definition Inv :: "fields \<Rightarrow> state \<Rightarrow> bool" where
  "Inv fs st =
     (set (queue st) \<subseteq> dom (map_of fs) - dom (data st) \<and>
      set (atomQueue st) \<subseteq> {k. k \<notin> dom (data st) \<and> (\<exists>el. map_of fs k = Some el \<and> atom el)})"

text \<open>
  A field that the next visit initialises (or that makes it throw): it is not in
  \<open>data\<close>, the fields it waits for without an error are, and it is an atom or no atom
  is missing from \<open>data\<close>.
\<close>

definition ready :: "fields \<Rightarrow> dict \<Rightarrow> string \<Rightarrow> bool" where
  "ready fs d m =
     (\<exists>el. map_of fs m = Some el \<and> m \<notin> dom d \<and>
        (\<forall>w\<in>set (after el). \<forall>wel. map_of fs w = Some wel \<longrightarrow> (atom el \<longrightarrow> atom wel) \<longrightarrow> w \<in> dom d) \<and>
        (atom el \<or> (\<forall>k el'. map_of fs k = Some el' \<longrightarrow> atom el' \<longrightarrow> k \<in> dom d)))"



subsection \<open>Concrete field maps\<close>

text \<open>
  In the closed examples \<open>Object.fastClone\<close> is a function that returns a primitive as
  it is and, for an object, the reference of another object (the copy); the next address
  is free in every example.
\<close>

definition cloneRef :: "jsval \<Rightarrow> jsval" where
  "cloneRef v = (case v of Ref a \<Rightarrow> Ref (Suc a) | _ \<Rightarrow> v)"

text \<open>
  Atoms \<open>y\<close>, \<open>w\<close> (after \<open>y\<close>) and \<open>x\<close> (after \<open>y\<close>), and a plain field \<open>n\<close> with a
  default and no \<open>init\<close>, declared in the order \<open>y\<close>, \<open>w\<close>, \<open>n\<close>, \<open>x\<close>.
\<close>

definition fieldsSkip :: fields where
  "fieldsSkip =
     [(''y'', \<lparr>atom = True, init = None, default = Num 1, after = []\<rparr>),
      (''w'', \<lparr>atom = True, init = None, default = Num 2, after = [''y'']\<rparr>),
      (''n'', \<lparr>atom = False, init = None, default = Num 3, after = []\<rparr>),
      (''x'', \<lparr>atom = True, init = None, default = Num 4, after = [''y'']\<rparr>)]"

text \<open>Two fields that wait for each other.\<close>

definition fieldsCycle :: fields where
  "fieldsCycle =
     [(''a'', \<lparr>atom = False, init = None, default = Num 1, after = [''b'']\<rparr>),
      (''b'', \<lparr>atom = False, init = None, default = Num 2, after = [''a'']\<rparr>)]"


text \<open>
  Field \<open>b\<close> takes \<open>data.a + 1\<close> from its \<open>init\<close>, after \<open>a\<close>, whose default is 1
  (the example scenario of the specification).
\<close>

definition fieldsAB :: fields where
  "fieldsAB =
     [(''b'', \<lparr>atom = False,
               init = Some (\<lambda>c d. case lookup d ''a'' of Num n \<Rightarrow> Num (n + 1) | _ \<Rightarrow> Undefined),
               default = Undefined, after = [''a'']\<rparr>),
      (''a'', \<lparr>atom = False, init = None, default = Num 1, after = []\<rparr>)]"



text \<open>
  The atom \<open>x\<close> waits for \<open>n\<close>, which is not an atom; the atom \<open>y\<close> is declared last
  and so comes first in the field list.
\<close>

definition fieldsOrder :: fields where
  "fieldsOrder =
     [(''x'', \<lparr>atom = True, init = None, default = Num 1, after = [''n'']\<rparr>),
      (''n'', \<lparr>atom = False, init = Some (\<lambda>c d. Num 2), default = Undefined, after = []\<rparr>),
      (''y'', \<lparr>atom = True, init = None, default = Num 3, after = []\<rparr>)]"

section \<open>Proofs: the metadata store\<close>


lemma extends_refl [simp]: "extends h h"
  by (simp add: extends_def)

lemma extends_trans: "extends h h1 \<Longrightarrow> extends h1 h2 \<Longrightarrow> extends h h2"
  by (auto simp: extends_def)

lemma extends_append [simp]: "extends h (h @ cs)"
  by (simp add: extends_def nth_append)

lemma extends_cellAt: "extends h h1 \<Longrightarrow> a < length h \<Longrightarrow> cellAt h1 a = cellAt h a"
  by (auto simp: extends_def cellAt_def)

lemma length_setProp [simp]: "length (setProp h a k v) = length h"
  by (simp add: setProp_def cellAt_def split: option.splits cell.splits)

lemma nth_setProp_other: "b \<noteq> a \<Longrightarrow> setProp h a k v ! b = h ! b"
  by (simp add: setProp_def cellAt_def split: option.splits cell.splits)

lemma nth_setProp_same:
  "a < length h \<Longrightarrow> h ! a = Object ps pr \<Longrightarrow> setProp h a k v ! a = Object (put k v ps) pr"
  by (simp add: setProp_def cellAt_def)

lemma extends_setProp: "extends h h1 \<Longrightarrow> length h \<le> a \<Longrightarrow> extends h (setProp h1 a k v)"
  by (auto simp: extends_def nth_setProp_other)

lemma map_of_put: "map_of (put k v ps) s = (if s = k then Some v else map_of ps s)"
  by (induction ps) auto

lemma closed_ref:
  assumes "closedHeap h" "a < length h" "Ref b \<in> set (refsOf (h ! a))"
  shows "b < length h"
proof -
  from assms(2) have "h ! a \<in> set h" by simp
  with assms(1) have "\<forall>v\<in>set (refsOf (h ! a)). case v of Ref a \<Rightarrow> a < length h | _ \<Rightarrow> True"
    unfolding closedHeap_def list_all_iff by blast
  with assms(3) show ?thesis by force
qed

lemma closed_proto:
  "closedHeap h \<Longrightarrow> a < length h \<Longrightarrow> h ! a = Object ps (Some p) \<Longrightarrow> p < length h"
  using closed_ref [of h a p] by simp

lemma closed_own:
  assumes "closedHeap h" "a < length h" "h ! a = Object ps pr" "map_of ps k = Some (Ref b)"
  shows "b < length h"
proof -
  from assms(4) have "(k, Ref b) \<in> set ps" by (rule map_of_SomeD)
  then have "Ref b \<in> set (refsOf (Object ps pr))" by force
  with assms(1-3) closed_ref [of h a b] show ?thesis by simp
qed

lemma getProp_ext1:
  assumes "getProp h a k = Some v" "closedHeap h" "extends h h1" "a < length h"
  shows "getProp h1 a k = Some v"
proof -
  have "\<forall>h1. closedHeap h \<longrightarrow> extends h h1 \<longrightarrow> a < length h \<longrightarrow> getProp h1 a k = Some v"
  proof (rule getProp.raw_induct [where P = "\<lambda>h a k v.
      \<forall>h1. closedHeap h \<longrightarrow> extends h h1 \<longrightarrow> a < length h \<longrightarrow> getProp h1 a k = Some v", OF _ assms(1)])
    fix getProp' h a k v
    assume IH: "\<And>h a k v. getProp' h a k = Some v \<Longrightarrow>
             \<forall>h1. closedHeap h \<longrightarrow> extends h h1 \<longrightarrow> a < length h \<longrightarrow> getProp h1 a k = Some v"
      and eq: "(case cellAt h a of None \<Rightarrow> Some Undefined
           | Some (Object ps pr) \<Rightarrow>
               (case map_of ps k of
                  None \<Rightarrow> (case pr of None \<Rightarrow> Some Undefined | Some p \<Rightarrow> getProp' h p k)
                | Some v \<Rightarrow> Some v)
           | Some (Array x) \<Rightarrow> Some Undefined) = Some v"
    show "\<forall>h1. closedHeap h \<longrightarrow> extends h h1 \<longrightarrow> a < length h \<longrightarrow> getProp h1 a k = Some v"
    proof (intro allI impI)
      fix h1
      assume c: "closedHeap h" and e: "extends h h1" and a: "a < length h"
      from extends_cellAt [OF e a] have ca: "cellAt h1 a = cellAt h a" .
      show "getProp h1 a k = Some v"
      proof (cases "h ! a")
        case (Array xs)
        with eq a ca show ?thesis by (subst getProp.simps) (simp add: cellAt_def)
      next
        case (Object ps pr)
        show ?thesis
        proof (cases "map_of ps k")
          case (Some v')
          with eq a ca Object show ?thesis by (subst getProp.simps) (simp add: cellAt_def)
        next
          case None
          show ?thesis
          proof (cases pr)
            case pn: None
            with eq a ca Object None show ?thesis by (subst getProp.simps) (simp add: cellAt_def)
          next
            case (Some p)
            with eq a Object None have "getProp' h p k = Some v" by (simp add: cellAt_def)
            moreover from closed_proto [OF c a] Object Some have "p < length h" by simp
            ultimately have "getProp h1 p k = Some v" using IH c e by blast
            with a ca Object None Some show ?thesis
              by (subst getProp.simps) (simp add: cellAt_def)
          qed
        qed
      qed
    qed
  qed
  with assms show ?thesis by blast
qed

lemma getProp_ext2:
  assumes "getProp h1 a k = Some v" "closedHeap h" "extends h h1" "a < length h"
  shows "getProp h a k = Some v"
proof -
  have "\<forall>h. closedHeap h \<longrightarrow> extends h h1 \<longrightarrow> a < length h \<longrightarrow> getProp h a k = Some v"
  proof (rule getProp.raw_induct [where P = "\<lambda>h1 a k v.
      \<forall>h. closedHeap h \<longrightarrow> extends h h1 \<longrightarrow> a < length h \<longrightarrow> getProp h a k = Some v", OF _ assms(1)])
    fix getProp' h1 a k v
    assume IH: "\<And>h1 a k v. getProp' h1 a k = Some v \<Longrightarrow>
             \<forall>h. closedHeap h \<longrightarrow> extends h h1 \<longrightarrow> a < length h \<longrightarrow> getProp h a k = Some v"
      and eq: "(case cellAt h1 a of None \<Rightarrow> Some Undefined
           | Some (Object ps pr) \<Rightarrow>
               (case map_of ps k of
                  None \<Rightarrow> (case pr of None \<Rightarrow> Some Undefined | Some p \<Rightarrow> getProp' h1 p k)
                | Some v \<Rightarrow> Some v)
           | Some (Array x) \<Rightarrow> Some Undefined) = Some v"
    show "\<forall>h. closedHeap h \<longrightarrow> extends h h1 \<longrightarrow> a < length h \<longrightarrow> getProp h a k = Some v"
    proof (intro allI impI)
      fix h
      assume c: "closedHeap h" and e: "extends h h1" and a: "a < length h"
      from extends_cellAt [OF e a] have ca: "cellAt h1 a = cellAt h a" .
      show "getProp h a k = Some v"
      proof (cases "h ! a")
        case (Array xs)
        with eq a ca show ?thesis by (subst getProp.simps) (simp add: cellAt_def)
      next
        case (Object ps pr)
        show ?thesis
        proof (cases "map_of ps k")
          case (Some v')
          with eq a ca Object show ?thesis by (subst getProp.simps) (simp add: cellAt_def)
        next
          case None
          show ?thesis
          proof (cases pr)
            case pn: None
            with eq a ca Object None show ?thesis by (subst getProp.simps) (simp add: cellAt_def)
          next
            case (Some p)
            with eq a ca Object None have "getProp' h1 p k = Some v" by (simp add: cellAt_def)
            moreover from closed_proto [OF c a] Object Some have "p < length h" by simp
            ultimately have "getProp h p k = Some v" using IH c e by blast
            with a Object None Some show ?thesis
              by (subst getProp.simps) (simp add: cellAt_def)
          qed
        qed
      qed
    qed
  qed
  with assms show ?thesis by blast
qed

lemma getProp_ext:
  assumes "closedHeap h" "extends h h1" "a < length h"
  shows "getProp h1 a k = getProp h a k"
proof (cases "getProp h a k")
  case (Some v)
  with getProp_ext1 [OF Some assms] show ?thesis by simp
next
  case None
  show ?thesis
  proof (cases "getProp h1 a k")
    case (Some v)
    from getProp_ext2 [OF Some assms] None show ?thesis by simp
  next
    case n1: None
    with None show ?thesis by simp
  qed
qed

lemma getProp_closed:
  assumes "getProp h a k = Some (Ref b)" "closedHeap h" "a < length h"
  shows "b < length h"
proof -
  have "closedHeap h \<longrightarrow> a < length h \<longrightarrow> (case Ref b of Ref b \<Rightarrow> b < length h | _ \<Rightarrow> True)"
  proof (rule getProp.raw_induct [where P = "\<lambda>h a k v.
      closedHeap h \<longrightarrow> a < length h \<longrightarrow> (case v of Ref b \<Rightarrow> b < length h | _ \<Rightarrow> True)",
      OF _ assms(1)])
    fix getProp' h a k v
    assume IH: "\<And>h a k v. getProp' h a k = Some v \<Longrightarrow> closedHeap h \<longrightarrow> a < length h \<longrightarrow>
              (case v of Ref b \<Rightarrow> b < length h | _ \<Rightarrow> True)"
      and eq: "(case cellAt h a of None \<Rightarrow> Some Undefined
           | Some (Object ps pr) \<Rightarrow>
               (case map_of ps k of
                  None \<Rightarrow> (case pr of None \<Rightarrow> Some Undefined | Some p \<Rightarrow> getProp' h p k)
                | Some v \<Rightarrow> Some v)
           | Some (Array x) \<Rightarrow> Some Undefined) = Some v"
    show "closedHeap h \<longrightarrow> a < length h \<longrightarrow> (case v of Ref b \<Rightarrow> b < length h | _ \<Rightarrow> True)"
    proof (intro impI)
      assume c: "closedHeap h" and a: "a < length h"
      show "case v of Ref b \<Rightarrow> b < length h | _ \<Rightarrow> True"
      proof (cases "h ! a")
        case (Array xs)
        with eq a show ?thesis by (auto simp: cellAt_def)
      next
        case (Object ps pr)
        show ?thesis
        proof (cases "map_of ps k")
          case (Some v')
          with eq a Object have "v' = v" by (simp add: cellAt_def)
          with closed_own [OF c a Object] Some show ?thesis by (cases v) auto
        next
          case None
          show ?thesis
          proof (cases pr)
            case pn: None
            with eq a Object None show ?thesis by (auto simp: cellAt_def)
          next
            case (Some p)
            with eq a Object None have "getProp' h p k = Some v" by (simp add: cellAt_def)
            moreover from closed_proto [OF c a] Object Some have "p < length h" by simp
            ultimately show ?thesis using IH c by blast
          qed
        qed
      qed
    qed
  qed
  with assms show ?thesis by simp
qed



lemma ownGet_extends: "extends h h1 \<Longrightarrow> a < length h \<Longrightarrow> ownGet h1 a k = ownGet h a k"
  by (simp add: ownGet_def extends_cellAt)

lemma ownGet_Ref_closed:
  assumes "closedHeap h" "ownGet h a k = Ref b"
  shows "b < length h"
proof -
  from assms(2) obtain ps pr where "a < length h" "h ! a = Object ps pr" "map_of ps k = Some (Ref b)"
    by (auto simp: ownGet_def cellAt_def split: if_splits cell.splits option.splits)
  with closed_own [OF assms(1)] show ?thesis by blast
qed

lemma slices_step:
  assumes obj: "obj < length hc" "hc ! obj = Object ps pr"
    and h2: "h2 = setProp (hc @ [Array xs]) obj key (Ref (length hc))"
  shows "length h2 = Suc (length hc)"
    and "extends hc (hc @ [Array xs])"
    and "h2 ! obj = Object (put key (Ref (length hc)) ps) pr"
    and "\<And>a. a < length hc \<Longrightarrow> a \<noteq> obj \<Longrightarrow> h2 ! a = hc ! a"
    and "h2 ! length hc = Array xs"
    and "\<And>s. ownGet h2 obj s = (if s = key then Ref (length hc) else ownGet hc obj s)"
  using obj unfolding h2
  by (auto simp: nth_setProp_other nth_setProp_same nth_append ownGet_def cellAt_def map_of_put
      setProp_def)

lemma slices_inv:
  assumes c: "closedHeap h0" and p: "p < length h0" and o: "length h0 \<le> obj"
  shows "extends h0 hc \<Longrightarrow> obj < length hc \<Longrightarrow> hc ! obj = Object ps pr \<Longrightarrow>
     copied h0 p obj hc \<Longrightarrow> slices hc obj p keys = Inr hc' \<Longrightarrow>
     extends h0 hc' \<and> length hc \<le> length hc' \<and>
     (\<forall>a<length hc. a \<noteq> obj \<longrightarrow> hc' ! a = hc ! a) \<and>
     (\<exists>ps'. hc' ! obj = Object ps' pr) \<and> copied h0 p obj hc' \<and>
     (\<forall>s. ownGet hc obj s \<noteq> Undefined \<or> (s \<in> set keys \<and> truthy (ownGet h0 p s)) \<longrightarrow>
          ownGet hc' obj s \<noteq> Undefined)"
proof (induction keys arbitrary: hc ps)
  case Nil
  then show ?case by simp
next
  case (Cons key keys)
  note e = Cons.prems(1) and ol = Cons.prems(2) and oc = Cons.prems(3) and g = Cons.prems(4)
    and sl = Cons.prems(5)
  have v0: "ownGet hc p key = ownGet h0 p key" by (rule ownGet_extends [OF e p])
  show ?case
  proof (cases "truthy (ownGet h0 p key)")
    case False
    with sl v0 have "slices hc obj p keys = Inr hc'" by simp
    from Cons.IH [OF e ol oc g this] False show ?thesis by auto
  next
    case True
    with sl v0 obtain b where b: "ownGet h0 p key = Ref b"
      by (cases "ownGet h0 p key") (auto simp: Let_def)
    from ownGet_Ref_closed [OF c b] have bl: "b < length h0" .
    with e have cb: "cellAt hc b = cellAt h0 b" by (simp add: extends_cellAt)
    with sl v0 b obtain xs where xs: "cellAt h0 b = Some (Array xs)"
      by (cases "cellAt h0 b") (auto simp: Let_def split: cell.splits)
    define h2 where "h2 = setProp (hc @ [Array xs]) obj key (Ref (length hc))"
    note st = slices_step [OF ol oc h2_def]
    from sl v0 b cb xs have sl2: "slices h2 obj p keys = Inr hc'"
      by (simp add: Let_def alloc_def h2_def)
    have e2: "extends h0 h2"
      unfolding h2_def using e o
      by (intro extends_setProp extends_trans [OF e] extends_append) simp
    have ol2: "obj < length h2" using ol st(1) by simp
    have g2: "copied h0 p obj h2"
      unfolding copied_def
    proof (intro allI impI)
      fix s
      assume ne: "ownGet h2 obj s \<noteq> Undefined"
      show "\<exists>b b' xs. ownGet h2 obj s = Ref b' \<and> ownGet h0 p s = Ref b \<and>
           cellAt h0 b = Some (Array xs) \<and> length h0 \<le> b' \<and> b' \<noteq> obj \<and>
           cellAt h2 b' = Some (Array xs)"
      proof (cases "s = key")
        case True
        have "length h0 \<le> length hc" using e by (simp add: extends_def)
        moreover have "cellAt h2 (length hc) = Some (Array xs)"
          using st(1,5) by (simp add: cellAt_def)
        ultimately show ?thesis using True st(6) b xs ol by auto
      next
        case False
        with ne st(6) have "ownGet hc obj s \<noteq> Undefined" by simp
        with g obtain b1 b1' xs1 where 1: "ownGet hc obj s = Ref b1'" "ownGet h0 p s = Ref b1"
           "cellAt h0 b1 = Some (Array xs1)" "length h0 \<le> b1'" "b1' \<noteq> obj"
           "cellAt hc b1' = Some (Array xs1)" unfolding copied_def by blast
        from 1(6) have "b1' < length hc" by (auto simp: cellAt_def split: if_splits)
        with 1(5,6) st(1,4) have "cellAt h2 b1' = Some (Array xs1)"
          by (auto simp: cellAt_def split: if_splits)
        with 1 False st(6) show ?thesis by auto
      qed
    qed
    from Cons.IH [OF e2 ol2 st(3) g2 sl2]
    have r: "extends h0 hc'" "length h2 \<le> length hc'"
      "\<forall>a<length h2. a \<noteq> obj \<longrightarrow> hc' ! a = h2 ! a"
      "\<exists>ps'. hc' ! obj = Object ps' pr" "copied h0 p obj hc'"
      "\<forall>s. ownGet h2 obj s \<noteq> Undefined \<or> (s \<in> set keys \<and> truthy (ownGet h0 p s)) \<longrightarrow>
          ownGet hc' obj s \<noteq> Undefined" by auto
    have "\<forall>a<length hc. a \<noteq> obj \<longrightarrow> hc' ! a = hc ! a"
      using r(3) st(1,4) by auto
    moreover have "\<forall>s. ownGet hc obj s \<noteq> Undefined \<or> (s \<in> set (key # keys) \<and> truthy (ownGet h0 p s)) \<longrightarrow>
          ownGet hc' obj s \<noteq> Undefined"
      using r(6) st(6) by auto
    ultimately show ?thesis using r(1,2,4,5) st(1) by auto
  qed
qed



lemma copied_empty: "obj < length hc \<Longrightarrow> hc ! obj = Object [] pr \<Longrightarrow> copied h0 p obj hc"
  by (simp add: copied_def ownGet_def cellAt_def)

lemma copyLists_inv:
  assumes c: "closedHeap h0" and e: "extends h0 hc" and o: "length h0 \<le> obj" "obj < length hc"
    and oc: "hc ! obj = Object [] pr"
    and pv: "getProp h0 parent dn = Some pv" "parent < length h0"
    and cl: "copyLists hc obj pv = Inr hc'"
  shows "\<exists>dp. pv = Ref dp \<and> dp < length h0 \<and> extends h0 hc' \<and> length hc \<le> length hc' \<and>
     (\<forall>a<length hc. a \<noteq> obj \<longrightarrow> hc' ! a = hc ! a) \<and>
     (\<exists>ps'. hc' ! obj = Object ps' pr) \<and> copied h0 dp obj hc' \<and>
     (\<forall>s. truthy (ownGet h0 dp s) \<longrightarrow> ownGet hc' obj s \<noteq> Undefined)"
proof -
  from cl obtain dp where dp: "pv = Ref dp"
    by (cases pv) (auto simp: copyLists_def keysOf_def)
  from getProp_closed [OF pv(1) [unfolded dp] c pv(2)] have dl: "dp < length h0" .
  with e have cd: "cellAt hc dp = cellAt h0 dp" by (simp add: extends_cellAt)
  with cl dp dl obtain pps ppr where cell: "h0 ! dp = Object pps ppr"
    and sl: "slices hc obj dp (map fst pps) = Inr hc'"
    by (cases "h0 ! dp") (auto simp: copyLists_def keysOf_def cellAt_def)
  from slices_inv [OF c dl o(1) e o(2) oc copied_empty [OF o(2) oc] sl]
  have r: "extends h0 hc'" "length hc \<le> length hc'"
     "\<forall>a<length hc. a \<noteq> obj \<longrightarrow> hc' ! a = hc ! a"
     "\<exists>ps'. hc' ! obj = Object ps' pr" "copied h0 dp obj hc'"
     "\<forall>s. ownGet hc obj s \<noteq> Undefined \<or> (s \<in> set (map fst pps) \<and> truthy (ownGet h0 dp s)) \<longrightarrow>
          ownGet hc' obj s \<noteq> Undefined" by auto
  have "\<forall>s. truthy (ownGet h0 dp s) \<longrightarrow> ownGet hc' obj s \<noteq> Undefined"
  proof (intro allI impI)
    fix s assume t: "truthy (ownGet h0 dp s)"
    then have "map_of pps s \<noteq> None"
      using dl cell by (auto simp: ownGet_def cellAt_def split: option.splits)
    then have "s \<in> set (map fst pps)" by (auto simp: map_of_eq_None_iff)
    with r(6) t show "ownGet hc' obj s \<noteq> Undefined" by blast
  qed
  with dp dl r(1-5) show ?thesis by blast
qed

lemma copied_frame:
  assumes g: "copied h0 p obj hc" and o: "obj < length hc" "obj \<noteq> obj2"
    and o2: "obj2 < length hc" "hc ! obj2 = Object ps2 pr2"
    and f: "\<forall>a<length hc. a \<noteq> obj2 \<longrightarrow> hc' ! a = hc ! a" "length hc \<le> length hc'"
  shows "copied h0 p obj hc' \<and> (\<forall>s. ownGet hc' obj s = ownGet hc obj s)"
proof -
  have og: "\<And>s. ownGet hc' obj s = ownGet hc obj s"
    using o f by (simp add: ownGet_def cellAt_def)
  have "copied h0 p obj hc'"
    unfolding copied_def
  proof (intro allI impI)
    fix s assume "ownGet hc' obj s \<noteq> Undefined"
    with og have "ownGet hc obj s \<noteq> Undefined" by simp
    with g obtain b b' xs where 1: "ownGet hc obj s = Ref b'" "ownGet h0 p s = Ref b"
      "cellAt h0 b = Some (Array xs)" "length h0 \<le> b'" "b' \<noteq> obj"
      "cellAt hc b' = Some (Array xs)" unfolding copied_def by blast
    from 1(6) have bl: "b' < length hc" "hc ! b' = Array xs"
      by (auto simp: cellAt_def split: if_splits)
    with o2 have "b' \<noteq> obj2" by auto
    with bl f have "cellAt hc' b' = Some (Array xs)" by (auto simp: cellAt_def)
    with 1 og show "\<exists>b b' xs. ownGet hc' obj s = Ref b' \<and> ownGet h0 p s = Ref b \<and>
           cellAt h0 b = Some (Array xs) \<and> length h0 \<le> b' \<and> b' \<noteq> obj \<and>
           cellAt hc' b' = Some (Array xs)" by auto
  qed
  with og show ?thesis by simp
qed

lemma setProp_fresh:
  "setProp (h @ Object ps pr # cs) (length h) k v = h @ Object (put k v ps) pr # cs"
  by (simp add: setProp_def cellAt_def nth_append list_update_append)

lemma createMeta_start:
  "createMeta h parent =
     (let h4 = h @ [Object [(''watchers'', Ref (Suc (length h))), (''hooks'', Ref (Suc (Suc (length h))))]
                      (Some parent), Object [] None, Object [] None]
      in case getProp h4 parent ''hooks'' of
        None \<Rightarrow> None
      | Some p \<Rightarrow>
          (case copyLists h4 (Suc (Suc (length h))) p of
             Inl e \<Rightarrow> Some (Inl e)
           | Inr h5 \<Rightarrow>
               (case getProp h5 parent ''watchers'' of
                  None \<Rightarrow> None
                | Some pw \<Rightarrow>
                    (case copyLists h5 (Suc (length h)) pw of
                       Inl e \<Rightarrow> Some (Inl e)
                     | Inr h6 \<Rightarrow> Some (Inr (length h, h6))))))"
  by (simp add: createMeta_def alloc_def setProp_fresh Let_def
        cong: option.case_cong sum.case_cong)

lemma createMeta_shape:
  assumes c: "closedHeap h" and p: "parent < length h"
    and cm: "createMeta h parent = Some (Inr (meta, h'))"
  obtains dp dpw where
    "meta = length h" "extends h h'"
    "h' ! meta = Object [(''watchers'', Ref (Suc (length h))), (''hooks'', Ref (Suc (Suc (length h))))] (Some parent)"
    "Suc (Suc (length h)) < length h'"
    "getProp h parent ''hooks'' = Some (Ref dp)" "dp < length h"
    "copied h dp (Suc (Suc (length h))) h'"
    "\<forall>s. truthy (ownGet h dp s) \<longrightarrow> ownGet h' (Suc (Suc (length h))) s \<noteq> Undefined"
    "getProp h parent ''watchers'' = Some (Ref dpw)" "dpw < length h"
    "copied h dpw (Suc (length h)) h'"
    "\<forall>s. truthy (ownGet h dpw s) \<longrightarrow> ownGet h' (Suc (length h)) s \<noteq> Undefined"
proof -
  let ?n = "length h"
  define h4 where "h4 = h @ [Object [(''watchers'', Ref (Suc ?n)), (''hooks'', Ref (Suc (Suc ?n)))]
                      (Some parent), Object [] None, Object [] None]"
  have e4: "extends h h4" by (simp add: h4_def)
  have l4: "length h4 = ?n + 3" by (simp add: h4_def)
  have c4: "h4 ! ?n = Object [(''watchers'', Ref (Suc ?n)), (''hooks'', Ref (Suc (Suc ?n)))] (Some parent)"
    "h4 ! Suc ?n = Object [] None" "h4 ! Suc (Suc ?n) = Object [] None"
    by (simp_all add: h4_def nth_append)
  have g4: "\<And>k. getProp h4 parent k = getProp h parent k"
    by (rule getProp_ext [OF c e4 p])
  from cm have cm4: "(case getProp h4 parent ''hooks'' of
        None \<Rightarrow> None
      | Some p \<Rightarrow>
          (case copyLists h4 (Suc (Suc ?n)) p of
             Inl e \<Rightarrow> Some (Inl e)
           | Inr h5 \<Rightarrow>
               (case getProp h5 parent ''watchers'' of
                  None \<Rightarrow> None
                | Some pw \<Rightarrow>
                    (case copyLists h5 (Suc ?n) pw of
                       Inl e \<Rightarrow> Some (Inl e)
                     | Inr h6 \<Rightarrow> Some (Inr (?n, h6)))))) = Some (Inr (meta, h'))"
    unfolding createMeta_start h4_def Let_def .
  from cm4 obtain pv where pv4: "getProp h4 parent ''hooks'' = Some pv"
    by (cases "getProp h4 parent ''hooks''") auto
  from cm4 pv4 obtain h5 where cl1: "copyLists h4 (Suc (Suc ?n)) pv = Inr h5"
    by (cases "copyLists h4 (Suc (Suc ?n)) pv") auto
  from cm4 pv4 cl1 obtain pw where pw5: "getProp h5 parent ''watchers'' = Some pw"
    by (cases "getProp h5 parent ''watchers''") auto
  from cm4 pv4 cl1 pw5 have cl2: "copyLists h5 (Suc ?n) pw = Inr h'" and m: "meta = ?n"
    by (cases "copyLists h5 (Suc ?n) pw"; simp)+
  from pv4 g4 have pv: "getProp h parent ''hooks'' = Some pv" by simp
  from copyLists_inv [OF c e4 _ _ c4(3) pv p cl1] l4
  obtain dp where 1: "pv = Ref dp" "dp < ?n" "extends h h5" "length h4 \<le> length h5"
     "\<forall>a<length h4. a \<noteq> Suc (Suc ?n) \<longrightarrow> h5 ! a = h4 ! a"
     "\<exists>ps'. h5 ! Suc (Suc ?n) = Object ps' None" "copied h dp (Suc (Suc ?n)) h5"
     "\<forall>s. truthy (ownGet h dp s) \<longrightarrow> ownGet h5 (Suc (Suc ?n)) s \<noteq> Undefined"
    by auto
  have c5: "h5 ! Suc ?n = Object [] None" using 1(5) l4 c4(2) by simp
  have l5: "Suc ?n < length h5" "Suc (Suc ?n) < length h5" using 1(4) l4 by simp_all
  have pw: "getProp h parent ''watchers'' = Some pw"
    using pw5 getProp_ext [OF c 1(3) p] by simp
  from copyLists_inv [OF c 1(3) _ l5(1) c5 pw p cl2]
  obtain dpw where 2: "pw = Ref dpw" "dpw < ?n" "extends h h'" "length h5 \<le> length h'"
     "\<forall>a<length h5. a \<noteq> Suc ?n \<longrightarrow> h' ! a = h5 ! a"
     "\<exists>ps'. h' ! Suc ?n = Object ps' None" "copied h dpw (Suc ?n) h'"
     "\<forall>s. truthy (ownGet h dpw s) \<longrightarrow> ownGet h' (Suc ?n) s \<noteq> Undefined"
    by auto
  from copied_frame [OF 1(7) l5(2) _ l5(1) c5 2(5,4)]
  have 3: "copied h dp (Suc (Suc ?n)) h'"
    "\<forall>s. ownGet h' (Suc (Suc ?n)) s = ownGet h5 (Suc (Suc ?n)) s" by auto
  have mc: "h' ! meta = Object [(''watchers'', Ref (Suc ?n)), (''hooks'', Ref (Suc (Suc ?n)))] (Some parent)"
    using m 1(4,5) 2(5) l4 c4(1) by simp
  show ?thesis
    by (rule that [OF m 2(3) mc _ pv [unfolded 1(1)] 1(2) 3(1) _ pw [unfolded 2(1)] 2(2) 2(7) 2(8)])
       (use l5 2(4) 1(8) 3(2) in auto)
qed



lemma getProp_own:
  "a < length h \<Longrightarrow> h ! a = Object ps pr \<Longrightarrow> map_of ps k = Some v \<Longrightarrow> getProp h a k = Some v"
  by (subst getProp.simps) (simp add: cellAt_def)

lemma getProp_proto:
  "a < length h \<Longrightarrow> h ! a = Object ps (Some p) \<Longrightarrow> map_of ps k = None \<Longrightarrow>
     getProp h a k = getProp h p k"
  by (subst getProp.simps) (simp add: cellAt_def)

lemma entryOf_extends:
  assumes c: "closedHeap h" and e: "extends h h1" and a: "a < length h"
  shows "entryOf h1 a dn s = entryOf h a dn s"
proof (cases "getProp h a dn")
  case None
  with getProp_ext [OF c e a, of dn] show ?thesis by (simp add: entryOf_def)
next
  case (Some v)
  show ?thesis
  proof (cases v)
    case (Ref d)
    with getProp_closed [OF _ c a, of dn d] Some have "d < length h" by simp
    with getProp_ext [OF c e a, of dn] Some Ref ownGet_extends [OF e, of d s]
    show ?thesis by (simp add: entryOf_def)
  qed (use getProp_ext [OF c e a, of dn] Some in \<open>simp_all add: entryOf_def\<close>)
qed

lemma push_fresh:
  assumes e: "extends h h'" and b: "length h \<le> b'" "cellAt h' b' = Some (Array xs)"
  shows "\<exists>h''. push h' (Ref b') x = Inr h'' \<and> cellAt h'' b' = Some (Array (xs @ [x])) \<and>
           extends h h''"
proof -
  from b(2) have bl: "b' < length h'" by (auto simp: cellAt_def split: if_splits)
  have "push h' (Ref b') x = Inr (h'[b' := Array (xs @ [x])])" using b(2) by (simp add: push_def)
  moreover have "cellAt (h'[b' := Array (xs @ [x])]) b' = Some (Array (xs @ [x]))"
    using bl by (simp add: cellAt_def)
  moreover have "extends h (h'[b' := Array (xs @ [x])])"
    using e b(1) by (auto simp: extends_def)
  ultimately show ?thesis by blast
qed

lemma createMeta_result:
  assumes c: "closedHeap h" and p: "parent < length h"
    and cm: "createMeta h parent = Some (Inr (meta, h'))"
  shows "(\<forall>a<length h. cellAt h' a = cellAt h a) \<and>
         (\<forall>k. k \<noteq> ''watchers'' \<longrightarrow> k \<noteq> ''hooks'' \<longrightarrow> getProp h' meta k = getProp h parent k) \<and>
         (\<forall>dn s. dn = ''hooks'' \<or> dn = ''watchers'' \<longrightarrow>
            (truthy (entryOf h parent dn s) \<longrightarrow> entryOf h' meta dn s \<noteq> Undefined) \<and>
            (entryOf h' meta dn s \<noteq> Undefined \<longrightarrow>
              (\<exists>b b' xs. entryOf h' meta dn s = Ref b' \<and> entryOf h parent dn s = Ref b \<and> b \<noteq> b' \<and>
                 cellAt h b = Some (Array xs) \<and> cellAt h' b' = Some (Array xs) \<and>
                 (\<forall>x. \<exists>h''. push h' (Ref b') x = Inr h'' \<and>
                        cellAt h'' b' = Some (Array (xs @ [x])) \<and>
                        entryOf h'' parent dn s = Ref b \<and> cellAt h'' b = Some (Array xs) \<and>
                        (\<forall>a<length h. cellAt h'' a = cellAt h a)))))"
  using c p cm
proof (cases rule: createMeta_shape)
  case (1 dp dpw)
  let ?n = "length h"
  note m = 1(1) and e = 1(2) and mc = 1(3) and l = 1(4)
  have ml: "meta < length h'" using m l by simp
  have A: "\<forall>a<length h. cellAt h' a = cellAt h a" using e by (simp add: extends_cellAt)
  have B: "\<forall>k. k \<noteq> ''watchers'' \<longrightarrow> k \<noteq> ''hooks'' \<longrightarrow> getProp h' meta k = getProp h parent k"
  proof (intro allI impI)
    fix k :: string assume k: "k \<noteq> ''watchers''" "k \<noteq> ''hooks''"
    have "getProp h' meta k = getProp h' parent k"
      by (rule getProp_proto [OF ml mc]) (use k in simp)
    also have "\<dots> = getProp h parent k" by (rule getProp_ext [OF c e p])
    finally show "getProp h' meta k = getProp h parent k" .
  qed
  have eh: "\<And>s. entryOf h' meta ''hooks'' s = ownGet h' (Suc (Suc ?n)) s"
    using getProp_own [OF ml mc, of "''hooks''"] by (simp add: entryOf_def)
  have ew: "\<And>s. entryOf h' meta ''watchers'' s = ownGet h' (Suc ?n) s"
    using getProp_own [OF ml mc, of "''watchers''"] by (simp add: entryOf_def)
  have ph: "\<And>s. entryOf h parent ''hooks'' s = ownGet h dp s"
    using 1(5) by (simp add: entryOf_def)
  have pw: "\<And>s. entryOf h parent ''watchers'' s = ownGet h dpw s"
    using 1(9) by (simp add: entryOf_def)
  have main: "(truthy (entryOf h parent dn s) \<longrightarrow> entryOf h' meta dn s \<noteq> Undefined) \<and>
            (entryOf h' meta dn s \<noteq> Undefined \<longrightarrow>
              (\<exists>b b' xs. entryOf h' meta dn s = Ref b' \<and> entryOf h parent dn s = Ref b \<and> b \<noteq> b' \<and>
                 cellAt h b = Some (Array xs) \<and> cellAt h' b' = Some (Array xs) \<and>
                 (\<forall>x. \<exists>h''. push h' (Ref b') x = Inr h'' \<and>
                        cellAt h'' b' = Some (Array (xs @ [x])) \<and>
                        entryOf h'' parent dn s = Ref b \<and> cellAt h'' b = Some (Array xs) \<and>
                        (\<forall>a<length h. cellAt h'' a = cellAt h a))))"
    if dn: "entryOf h' meta dn s = ownGet h' obj s" "entryOf h parent dn s = ownGet h d s"
      and cp: "copied h d obj h'"
      and cov: "\<forall>s. truthy (ownGet h d s) \<longrightarrow> ownGet h' obj s \<noteq> Undefined"
    for dn s obj d
  proof (intro conjI impI)
    assume "truthy (entryOf h parent dn s)"
    with dn cov show "entryOf h' meta dn s \<noteq> Undefined" by simp
  next
    assume "entryOf h' meta dn s \<noteq> Undefined"
    with dn cp obtain b b' xs where 2: "ownGet h' obj s = Ref b'" "ownGet h d s = Ref b"
      "cellAt h b = Some (Array xs)" "length h \<le> b'" "cellAt h' b' = Some (Array xs)"
      unfolding copied_def by auto
    from 2(3) have bl: "b < length h" by (auto simp: cellAt_def split: if_splits)
    have "\<exists>h''. push h' (Ref b') x = Inr h'' \<and>
                        cellAt h'' b' = Some (Array (xs @ [x])) \<and>
                        entryOf h'' parent dn s = Ref b \<and> cellAt h'' b = Some (Array xs) \<and>
                        (\<forall>a<length h. cellAt h'' a = cellAt h a)" for x
    proof -
      from push_fresh [OF e 2(4,5), of x] obtain h'' where 3: "push h' (Ref b') x = Inr h''"
        "cellAt h'' b' = Some (Array (xs @ [x]))" "extends h h''" by blast
      from entryOf_extends [OF c 3(3) p] dn(2) 2(2)
      have "entryOf h'' parent dn s = Ref b" by simp
      moreover from 3(3) have "\<forall>a<length h. cellAt h'' a = cellAt h a"
        by (simp add: extends_cellAt)
      ultimately show ?thesis using 3(1,2) 2(3) bl by auto
    qed
    with 2 bl dn show "\<exists>b b' xs. entryOf h' meta dn s = Ref b' \<and> entryOf h parent dn s = Ref b \<and> b \<noteq> b' \<and>
                 cellAt h b = Some (Array xs) \<and> cellAt h' b' = Some (Array xs) \<and>
                 (\<forall>x. \<exists>h''. push h' (Ref b') x = Inr h'' \<and>
                        cellAt h'' b' = Some (Array (xs @ [x])) \<and>
                        entryOf h'' parent dn s = Ref b \<and> cellAt h'' b = Some (Array xs) \<and>
                        (\<forall>a<length h. cellAt h'' a = cellAt h a))"
      by (intro exI [of _ b] exI [of _ b'] exI [of _ xs]) auto
  qed
  have C: "\<forall>dn s. dn = ''hooks'' \<or> dn = ''watchers'' \<longrightarrow>
            (truthy (entryOf h parent dn s) \<longrightarrow> entryOf h' meta dn s \<noteq> Undefined) \<and>
            (entryOf h' meta dn s \<noteq> Undefined \<longrightarrow>
              (\<exists>b b' xs. entryOf h' meta dn s = Ref b' \<and> entryOf h parent dn s = Ref b \<and> b \<noteq> b' \<and>
                 cellAt h b = Some (Array xs) \<and> cellAt h' b' = Some (Array xs) \<and>
                 (\<forall>x. \<exists>h''. push h' (Ref b') x = Inr h'' \<and>
                        cellAt h'' b' = Some (Array (xs @ [x])) \<and>
                        entryOf h'' parent dn s = Ref b \<and> cellAt h'' b = Some (Array xs) \<and>
                        (\<forall>a<length h. cellAt h'' a = cellAt h a))))"
  proof (intro allI impI)
    fix dn s :: string
    assume "dn = ''hooks'' \<or> dn = ''watchers''"
    then show "(truthy (entryOf h parent dn s) \<longrightarrow> entryOf h' meta dn s \<noteq> Undefined) \<and>
            (entryOf h' meta dn s \<noteq> Undefined \<longrightarrow>
              (\<exists>b b' xs. entryOf h' meta dn s = Ref b' \<and> entryOf h parent dn s = Ref b \<and> b \<noteq> b' \<and>
                 cellAt h b = Some (Array xs) \<and> cellAt h' b' = Some (Array xs) \<and>
                 (\<forall>x. \<exists>h''. push h' (Ref b') x = Inr h'' \<and>
                        cellAt h'' b' = Some (Array (xs @ [x])) \<and>
                        entryOf h'' parent dn s = Ref b \<and> cellAt h'' b = Some (Array xs) \<and>
                        (\<forall>a<length h. cellAt h'' a = cellAt h a))))"
    proof
      assume "dn = ''hooks''"
      with main [OF _ _ 1(7,8), of dn s] eh ph show ?thesis by simp
    next
      assume "dn = ''watchers''"
      with main [OF _ _ 1(11,12), of dn s] ew pw show ?thesis by simp
    qed
  qed
  from A B C show ?thesis by blast
qed

text \<open>
  The copying loops succeed on dictionaries of lists, so that \<open>createMeta\<close> returns a
  child for a parent of the type \<open>ComponentMeta\<close>.
\<close>

lemma slices_total:
  assumes c: "closedHeap h0" and p: "p < length h0" and o: "length h0 \<le> obj"
    and t: "\<forall>s. truthy (ownGet h0 p s) \<longrightarrow> (\<exists>b xs. ownGet h0 p s = Ref b \<and> cellAt h0 b = Some (Array xs))"
  shows "extends h0 hc \<Longrightarrow> \<exists>hc'. slices hc obj p keys = Inr hc'"
proof (induction keys arbitrary: hc)
  case Nil
  then show ?case by simp
next
  case (Cons key keys)
  have v0: "ownGet hc p key = ownGet h0 p key" by (rule ownGet_extends [OF Cons.prems p])
  show ?case
  proof (cases "truthy (ownGet h0 p key)")
    case False
    with v0 Cons.IH [OF Cons.prems] show ?thesis by simp
  next
    case True
    with t obtain b xs where b: "ownGet h0 p key = Ref b" "cellAt h0 b = Some (Array xs)" by blast
    from b(2) have "b < length h0" by (auto simp: cellAt_def split: if_splits)
    with Cons.prems b(2) have cb: "cellAt hc b = Some (Array xs)" by (simp add: extends_cellAt)
    have "extends h0 (setProp (hc @ [Array xs]) obj key (Ref (length hc)))"
      using o by (intro extends_setProp extends_trans [OF Cons.prems] extends_append) simp
    from Cons.IH [OF this] True v0 b cb show ?thesis by (simp add: Let_def alloc_def)
  qed
qed

lemma copyLists_total:
  assumes c: "closedHeap h0" and e: "extends h0 hc" and o: "length h0 \<le> obj"
    and pl: "parent < length h0" and l: "listsOnly h0 parent dn"
  shows "\<exists>pv hc'. getProp h0 parent dn = Some pv \<and> copyLists hc obj pv = Inr hc'"
proof -
  from l obtain d ps pr where d: "getProp h0 parent dn = Some (Ref d)"
    "cellAt h0 d = Some (Object ps pr)"
    "\<forall>s. truthy (ownGet h0 d s) \<longrightarrow> (\<exists>b xs. ownGet h0 d s = Ref b \<and> cellAt h0 b = Some (Array xs))"
    unfolding listsOnly_def by blast
  from d(2) have dl: "d < length h0" by (auto simp: cellAt_def split: if_splits)
  with e d(2) have cd: "cellAt hc d = Some (Object ps pr)" by (simp add: extends_cellAt)
  from slices_total [OF c dl o d(3) e, of "map fst ps"] obtain hc' where
    "slices hc obj d (map fst ps) = Inr hc'" by blast
  with cd have "copyLists hc obj (Ref d) = Inr hc'" by (simp add: copyLists_def keysOf_def)
  with d(1) show ?thesis by blast
qed

lemma createMeta_total:
  assumes c: "closedHeap h" and p: "parent < length h"
    and lh: "listsOnly h parent ''hooks''" and lw: "listsOnly h parent ''watchers''"
  shows "\<exists>meta h'. createMeta h parent = Some (Inr (meta, h'))"
proof -
  let ?n = "length h"
  define h4 where "h4 = h @ [Object [(''watchers'', Ref (Suc ?n)), (''hooks'', Ref (Suc (Suc ?n)))]
                      (Some parent), Object [] None, Object [] None]"
  have e4: "extends h h4" by (simp add: h4_def)
  have l4: "length h4 = ?n + 3" by (simp add: h4_def)
  have c4: "h4 ! Suc ?n = Object [] None" "h4 ! Suc (Suc ?n) = Object [] None"
    by (simp_all add: h4_def nth_append)
  from copyLists_total [OF c e4 _ p lh, of "Suc (Suc ?n)"] obtain pv h5 where
    1: "getProp h parent ''hooks'' = Some pv" "copyLists h4 (Suc (Suc ?n)) pv = Inr h5" by auto
  from copyLists_inv [OF c e4 _ _ c4(2) 1(1) p 1(2)] l4
  have e5: "extends h h5" by auto
  from copyLists_total [OF c e5 _ p lw, of "Suc ?n"] obtain pw h6 where
    2: "getProp h parent ''watchers'' = Some pw" "copyLists h5 (Suc ?n) pw = Inr h6" by auto
  have "createMeta h parent = Some (Inr (?n, h6))"
    unfolding createMeta_start Let_def h4_def [symmetric]
    using 1 2 getProp_ext [OF c e4 p] getProp_ext [OF c e5 p] by simp
  then show ?thesis by blast
qed

text \<open>
  Claim C4. Let the heap be well-formed and \<open>parent\<close> a metadata object of it, whose
  \<open>hooks\<close> and \<open>watchers\<close> are dictionaries of lists. Then \<open>createMeta(parent)\<close>
  returns a child \<open>meta\<close>, in a heap \<open>h'\<close>, such that: no cell of the heap before the
  call is changed; reading from the child any property but \<open>watchers\<close> and \<open>hooks\<close> (a
  prop, field, method, computed, accessor or mod) gives what reading it from the parent
  gave; for every key for which the parent's \<open>hooks\<close> or \<open>watchers\<close> has a list, the
  child's has one; and every list of the child's \<open>hooks\<close> and \<open>watchers\<close> is an array
  other than the parent's array for the key, with the same elements, such that
  appending to it changes the child's array, leaves the parent's entry and array for
  the key as they were, and changes no cell of the heap before the call.
\<close>

theorem createMeta_child:
  assumes c: "closedHeap h" and p: "parent < length h"
    and lh: "listsOnly h parent ''hooks''" and lw: "listsOnly h parent ''watchers''"
  shows "\<exists>meta h'. createMeta h parent = Some (Inr (meta, h')) \<and>
         (\<forall>a<length h. cellAt h' a = cellAt h a) \<and>
         (\<forall>k. k \<noteq> ''watchers'' \<longrightarrow> k \<noteq> ''hooks'' \<longrightarrow> getProp h' meta k = getProp h parent k) \<and>
         (\<forall>dn s. dn = ''hooks'' \<or> dn = ''watchers'' \<longrightarrow>
            (truthy (entryOf h parent dn s) \<longrightarrow> entryOf h' meta dn s \<noteq> Undefined) \<and>
            (entryOf h' meta dn s \<noteq> Undefined \<longrightarrow>
              (\<exists>b b' xs. entryOf h' meta dn s = Ref b' \<and> entryOf h parent dn s = Ref b \<and> b \<noteq> b' \<and>
                 cellAt h b = Some (Array xs) \<and> cellAt h' b' = Some (Array xs) \<and>
                 (\<forall>x. \<exists>h''. push h' (Ref b') x = Inr h'' \<and>
                        cellAt h'' b' = Some (Array (xs @ [x])) \<and>
                        entryOf h'' parent dn s = Ref b \<and> cellAt h'' b = Some (Array xs) \<and>
                        (\<forall>a<length h. cellAt h'' a = cellAt h a)))))"
proof -
  from createMeta_total [OF c p lh lw] obtain meta h' where
    cm: "createMeta h parent = Some (Inr (meta, h'))" by blast
  show ?thesis
    by (rule exI [of _ meta], rule exI [of _ h'], rule conjI [OF cm createMeta_result [OF c p cm]])
qed

lemma createMeta_heapP: "createMeta heapP 0 = Some (Inr (6, heapC))"
  by (simp add: createMeta_def alloc_def setProp_def cellAt_def getProp.simps copyLists_def
      keysOf_def ownGet_def heapP_def heapC_def Let_def)

lemma closedHeap_heapP: "closedHeap heapP"
  by (simp add: closedHeap_def heapP_def)

lemma listsOnly_heapP_hooks: "listsOnly heapP 0 ''hooks''"
  unfolding listsOnly_def
  by (rule exI [of _ 1], rule exI [of _ "[(''created'', Ref 3), (''mounted'', Undefined)]"],
      rule exI [of _ None])
     (simp add: getProp.simps cellAt_def ownGet_def heapP_def)

lemma listsOnly_heapP_watchers: "listsOnly heapP 0 ''watchers''"
  unfolding listsOnly_def
  by (rule exI [of _ 2], rule exI [of _ "[(''foo'', Ref 4)]"], rule exI [of _ None])
     (simp add: getProp.simps cellAt_def ownGet_def heapP_def)

text \<open>
  The hypotheses of \<open>createMeta_child\<close> hold for the parent 0 of \<open>heapP\<close>: the call
  returns the child 6 in \<open>heapC\<close>, the child reads the parent's \<open>props\<close>, and appending
  to the child's list of \<open>created\<close> hooks leaves the parent's list as it was.
\<close>

theorem createMeta_child_witness:
  "createMeta heapP 0 = Some (Inr (6, heapC)) \<and>
   getProp heapC 6 ''props'' = getProp heapP 0 ''props'' \<and>
   (\<exists>b b' xs. entryOf heapC 6 ''hooks'' ''created'' = Ref b' \<and>
      entryOf heapP 0 ''hooks'' ''created'' = Ref b \<and> b \<noteq> b' \<and>
      cellAt heapP b = Some (Array xs) \<and> cellAt heapC b' = Some (Array xs) \<and>
      (\<exists>h''. push heapC (Ref b') (Num 7) = Inr h'' \<and>
         cellAt h'' b' = Some (Array (xs @ [Num 7])) \<and> cellAt h'' b = Some (Array xs)))"
proof -
  have l: "0 < length heapP" by (simp add: heapP_def)
  define R where "R = (\<lambda>meta h'. (\<forall>a<length heapP. cellAt h' a = cellAt heapP a) \<and>
         (\<forall>k. k \<noteq> ''watchers'' \<longrightarrow> k \<noteq> ''hooks'' \<longrightarrow> getProp h' meta k = getProp heapP 0 k) \<and>
         (\<forall>dn s. dn = ''hooks'' \<or> dn = ''watchers'' \<longrightarrow>
            (truthy (entryOf heapP 0 dn s) \<longrightarrow> entryOf h' meta dn s \<noteq> Undefined) \<and>
            (entryOf h' meta dn s \<noteq> Undefined \<longrightarrow>
              (\<exists>b b' xs. entryOf h' meta dn s = Ref b' \<and> entryOf heapP 0 dn s = Ref b \<and> b \<noteq> b' \<and>
                 cellAt heapP b = Some (Array xs) \<and> cellAt h' b' = Some (Array xs) \<and>
                 (\<forall>x. \<exists>h''. push h' (Ref b') x = Inr h'' \<and>
                        cellAt h'' b' = Some (Array (xs @ [x])) \<and>
                        entryOf h'' 0 dn s = Ref b \<and> cellAt h'' b = Some (Array xs) \<and>
                        (\<forall>a<length heapP. cellAt h'' a = cellAt heapP a))))))"
  have "\<exists>meta h'. createMeta heapP 0 = Some (Inr (meta, h')) \<and> R meta h'"
    unfolding R_def
    by (rule createMeta_child [OF closedHeap_heapP l listsOnly_heapP_hooks listsOnly_heapP_watchers])
  then have "R 6 heapC" by (auto simp: createMeta_heapP)
  note t = this [unfolded R_def]
  from t have 1: "getProp heapC 6 ''props'' = getProp heapP 0 ''props''" by simp
  have ne: "entryOf heapC 6 ''hooks'' ''created'' \<noteq> Undefined"
    by (simp add: entryOf_def getProp.simps cellAt_def ownGet_def heapC_def)
  from t have "entryOf heapC 6 ''hooks'' ''created'' \<noteq> Undefined \<longrightarrow>
              (\<exists>b b' xs. entryOf heapC 6 ''hooks'' ''created'' = Ref b' \<and>
                 entryOf heapP 0 ''hooks'' ''created'' = Ref b \<and> b \<noteq> b' \<and>
                 cellAt heapP b = Some (Array xs) \<and> cellAt heapC b' = Some (Array xs) \<and>
                 (\<forall>x. \<exists>h''. push heapC (Ref b') x = Inr h'' \<and>
                        cellAt h'' b' = Some (Array (xs @ [x])) \<and>
                        entryOf h'' 0 ''hooks'' ''created'' = Ref b \<and>
                        cellAt h'' b = Some (Array xs) \<and>
                        (\<forall>a<length heapP. cellAt h'' a = cellAt heapP a)))"
    by blast
  with ne 1 createMeta_heapP show ?thesis by blast
qed


section \<open>Proofs: the hook runner\<close>

lemmas runHook_eval = runHook_def metaOf_def event_on_def addListener_def Set_delete_def
  boolean_size_def emitted_def createSyncPromise_def ctx0_def Let_def

text \<open>
  Claim C1 (a hook runs only after every hook named in its \<open>after\<close> set has completed)
  fails on the code. For \<open>A\<close> and \<open>B\<close> without dependencies and \<open>C\<close> after both, all
  synchronous, the functions are called in the order \<open>A\<close>, \<open>C\<close>, \<open>B\<close>, \<open>C\<close>: the emit
  of \<open>A\<close> calls the callback of \<open>C\<close> although \<open>B\<close> has not run, because the guard
  \<open>!el.event.delete(event).size\<close> reads \<open>size\<close> of a boolean and always holds, and the
  emit of \<open>B\<close> calls it again.
\<close>

theorem runHook_fires_at_first_predecessor:
  "runHook 5 created (metaOf hooksJoin) ctx0 =
     Some (Inr (SyncPromise \<lparr>val = Undefined, err = Undefined\<rparr>,
                \<lparr>hook = Some created, activeField = None\<rparr>,
                \<lparr>hookList =
                   [\<lparr>name = Some ''A'', fn = Plain, after = []\<rparr>,
                    \<lparr>name = Some ''B'', fn = Plain, after = []\<rparr>,
                    \<lparr>name = Some ''C'', fn = Plain, after = []\<rparr>],
                 listeners = [(''A'', [2]), (''B'', [2])], calls = [0, 2, 1, 2],
                 pending = []\<rparr>))"
  by (simp add: runHook_eval hooksJoin_def eval_nat_numeral)

text \<open>
  The example of the specification, in a first run: with \<open>A\<close> asynchronous, \<open>runHook\<close>
  calls \<open>A\<close> only and returns a promise; \<open>B\<close> and \<open>C\<close> are called when the promise of
  \<open>A\<close> is fulfilled, and the run leaves their \<open>after\<close> sets empty.
\<close>

theorem runHook_example_first_run:
  "runHook 5 created (metaOf (hooksABC Promise)) ctx0 =
     Some (Inr (RealPromise, \<lparr>hook = Some created, activeField = None\<rparr>,
                \<lparr>hookList = hooksABC Promise,
                 listeners = [(''A'', [1, 2])], calls = [0], pending = [0]\<rparr>))
   \<and> settle 5 0 \<lparr>hookList = hooksABC Promise,
                 listeners = [(''A'', [1, 2])], calls = [0], pending = [0]\<rparr> =
     Some (False, \<lparr>hookList = hooksABC2,
                 listeners = [(''A'', [1, 2])], calls = [0, 1, 2], pending = []\<rparr>)"
  by (simp add: settle_def runHook_eval hooksABC_def hooksABC2_def eval_nat_numeral)

text \<open>
  The same example in the next run of the stage on these descriptors: the \<open>after\<close> sets
  are empty now, so \<open>B\<close> and \<open>C\<close> are in the queue and are called at once, while the
  promise of \<open>A\<close> is still pending.
\<close>

theorem runHook_example_next_run:
  "runHook 5 created (metaOf hooksABC2) ctx0 =
     Some (Inr (RealPromise, \<lparr>hook = Some created, activeField = None\<rparr>,
                \<lparr>hookList = hooksABC2,
                 listeners = [], calls = [0, 1, 2], pending = [0]\<rparr>))"
  by (simp add: runHook_eval hooksABC2_def eval_nat_numeral)


text \<open>
  Claim C9. For a stage whose registered hook list is empty, \<open>runHook\<close> returns at once,
  whatever the bound on the depth of the calls: the signal is the object of
  \<open>createSyncPromise()\<close> and not a promise of the language, no function has been called
  and nothing is pending. On this signal \<open>then\<close> without callbacks gives a completed
  signal again, and \<open>then\<close>, \<open>catch\<close> and \<open>finally\<close> call their callback at once and give
  an object of \<open>createSyncPromise\<close> when it returns.
\<close>

theorem runHook_empty:
  assumes "hooks meta hk = Some []"
  shows "runHook n hk meta c =
           Some (Inr (SyncPromise (createSyncPromise Undefined Undefined), c\<lparr>hook := Some hk\<rparr>,
                      \<lparr>hookList = [], listeners = [], calls = [], pending = []\<rparr>))
         \<and> sync_then (createSyncPromise Undefined Undefined) None None =
             \<lparr>invoked = [], result = Inr (createSyncPromise Undefined Undefined)\<rparr>
         \<and> (\<forall>f rj v. f Undefined = Inr v \<longrightarrow>
               sync_then (createSyncPromise Undefined Undefined) (Some f) rj =
                 \<lparr>invoked = [(Resolve, Undefined)], result = Inr (createSyncPromise v Undefined)\<rparr>)
         \<and> (\<forall>f v. f Undefined = Inr v \<longrightarrow>
               sync_catch (createSyncPromise Undefined Undefined) f =
                 \<lparr>invoked = [(Catch, Undefined)], result = Inr (createSyncPromise Undefined v)\<rparr>)
         \<and> (\<forall>f v. f Undefined = Inr v \<longrightarrow>
               sync_finally (createSyncPromise Undefined Undefined) f =
                 \<lparr>invoked = [(Finally, Undefined)], result = Inr (createSyncPromise v Undefined)\<rparr>)"
  using assms
  by (simp add: runHook_def sync_then_def sync_catch_def sync_finally_def createSyncPromise_def)

theorem runHook_empty_witness:
  "runHook 0 mounted (metaOf hooksJoin) ctx0 =
     Some (Inr (SyncPromise (createSyncPromise Undefined Undefined), ctx0\<lparr>hook := Some mounted\<rparr>,
                \<lparr>hookList = [], listeners = [], calls = [], pending = []\<rparr>))
   \<and> sync_finally (createSyncPromise Undefined Undefined) (\<lambda>v. Inr (Num 1)) =
       \<lparr>invoked = [(Finally, Undefined)], result = Inr (createSyncPromise (Num 1) Undefined)\<rparr>"
  using runHook_empty [of "metaOf hooksJoin" mounted 0 ctx0]
  by (simp add: metaOf_def)



section \<open>Proofs: the watcher binder\<close>

lemma concat_map_filter:
  "concat (map f (filter P xs)) = concat (map (\<lambda>x. if P x then f x else []) xs)"
  by (induction xs) auto

lemma attachAll_None [simp]: "attachAll sc k None = []"
  by (simp add: attachAll_def)

lemma not_both: "\<not> (onBeforeCreate k \<and> onMounted k)"
  by (auto simp: onBeforeCreate_def onMounted_def split: option.splits)

text \<open>
  Claim C5, as amended. \<open>bindWatchers\<close> subscribes nothing unless the stage of the
  context is \<open>beforeCreate\<close>, \<open>created\<close> or \<open>mounted\<close>. During \<open>beforeCreate\<close> it
  subscribes the watchers of exactly the keys marked \<open>!\<close>, during \<open>mounted\<close> those of
  exactly the keys marked \<open>?\<close>, and during \<open>created\<close> those of exactly the other keys
  (the custom keys without a mark and the ordinary reactive keys). No key has both marks,
  so the watchers of a key are subscribed in one of the three stages only.
\<close>

theorem bindWatchers_stages:
  "(hook c \<noteq> Some beforeCreate \<and> hook c \<noteq> Some created \<and> hook c \<noteq> Some mounted \<longrightarrow>
      bindWatchers sc c meta = []) \<and>
   (hook c = Some beforeCreate \<longrightarrow>
      bindWatchers sc c meta =
        concat (map (\<lambda>(k, ws). attachAll sc k ws)
          (filter (\<lambda>(k, ws). onBeforeCreate k) (watchers meta)))) \<and>
   (hook c = Some created \<longrightarrow>
      bindWatchers sc c meta =
        concat (map (\<lambda>(k, ws). attachAll sc k ws)
          (filter (\<lambda>(k, ws). \<not> onBeforeCreate k \<and> \<not> onMounted k) (watchers meta)))) \<and>
   (hook c = Some mounted \<longrightarrow>
      bindWatchers sc c meta =
        concat (map (\<lambda>(k, ws). attachAll sc k ws)
          (filter (\<lambda>(k, ws). onMounted k) (watchers meta)))) \<and>
   (\<forall>k. \<not> (onBeforeCreate k \<and> onMounted k))"
  by (cases "hook c")
     (auto simp: bindWatchers_def concat_map_filter skipped_def not_both
           intro!: arg_cong [where f = concat] split: prod.splits)

lemmas bindWatchers_eval = bindWatchers_def skipped_def attachAll_def onBeforeCreate_def
  onMounted_def rootOf_def keyOf_def customWatcherRgxp_def marker_def lineEnd_def
  scope0_def watchers0_def meta0_def metaFoo_def ctx0_def

theorem bindWatchers_stages_witness:
  "bindWatchers scope0 (ctx0\<lparr>hook := Some updated\<rparr>) meta0 = [] \<and>
   bindWatchers scope0 (ctx0\<lparr>hook := Some mounted\<rparr>) meta0 = [AsyncOn 1 ''path.to.value'' 30]"
proof -
  note t = bindWatchers_stages [of "ctx0\<lparr>hook := Some updated\<rparr>" scope0 meta0]
    bindWatchers_stages [of "ctx0\<lparr>hook := Some mounted\<rparr>" scope0 meta0]
  have "concat (map (\<lambda>(k, ws). attachAll scope0 k ws)
          (filter (\<lambda>(k, ws). onMounted k) (watchers meta0))) = [AsyncOn 1 ''path.to.value'' 30]"
    by (simp add: bindWatchers_eval)
  with t show ?thesis by simp
qed

text \<open>
  Claim C5 as stated fails: during \<open>mounted\<close> the watchers of an ordinary reactive key
  are not subscribed; they are subscribed during \<open>created\<close>.
\<close>

theorem bindWatchers_mounted_skips_reactive:
  "bindWatchers scope0 (ctx0\<lparr>hook := Some mounted\<rparr>) metaFoo = [] \<and>
   bindWatchers scope0 (ctx0\<lparr>hook := Some created\<rparr>) metaFoo = [Watch ''foo'' 10, Watch ''foo'' 11]"
  by (simp add: bindWatchers_eval)

text \<open>
  The watchers of \<open>watchers0\<close> by stage. The key \<open>?remote:path.to.value\<close> is bound
  during \<open>mounted\<close> only, on the object that the path \<open>remote\<close> leads to and not on
  the context.
\<close>

theorem bindWatchers_example:
  "bindWatchers scope0 (ctx0\<lparr>hook := Some beforeCreate\<rparr>) meta0 = [AsyncOn 1 ''init'' 20] \<and>
   bindWatchers scope0 (ctx0\<lparr>hook := Some created\<rparr>) meta0 =
     [Watch ''foo'' 10, Watch ''foo'' 11, CtxOn ''local'' 40] \<and>
   bindWatchers scope0 (ctx0\<lparr>hook := Some mounted\<rparr>) meta0 = [AsyncOn 1 ''path.to.value'' 30]"
  by (simp add: bindWatchers_eval)

section \<open>Proofs: the field initializer\<close>



lemma set_Set_add [simp]: "set (Set_add s x) = insert x (set s)"
  by (auto simp: Set_add_def)

lemma Set_add_not_Nil [simp]: "Set_add s x \<noteq> []"
  by (auto simp: Set_add_def)

lemma snd_Set_delete [simp]: "snd (Set_delete s x) = removeAll x s"
  by (simp add: Set_delete_def)

lemma scanAfter_Through:
  "scanAfter fs d key a ws = Through \<Longrightarrow> w \<in> set ws \<Longrightarrow>
     w \<in> dom d \<and> (\<exists>wf. map_of fs w = Some wf \<and> (a \<longrightarrow> atom wf))"
  by (induction ws) (auto split: option.splits if_splits)

lemma data_initField:
  "key \<notin> dom (data st) \<Longrightarrow>
     \<exists>v. data (initField C inst key el st) = (data st)(key \<mapsto> v)"
  by (auto simp: initField_def Let_def lookup_def Set_delete_def split: option.splits)

lemma queue_initField:
  "queue (initField C inst key el st) = removeAll key (queue st)"
  "atomQueue (initField C inst key el st) = removeAll key (atomQueue st)"
  by (auto simp: initField_def Let_def Set_delete_def)

lemma visit_stuck:
  assumes "stuck fs S" "dom (data st) \<inter> S = {}" "visit C fs inst key st = Inr st'"
  shows "dom (data st') \<inter> S = {} \<and> (key \<in> S \<longrightarrow> key \<in> set (queue st'))
         \<and> set (queue st) \<inter> S \<subseteq> set (queue st')"
proof (cases "key \<in> dom (data st)")
  case True
  with assms show ?thesis by (auto simp: visit_def)
next
  case False
  with assms(3) obtain el where el: "map_of fs key = Some el"
    by (auto simp: visit_def split: option.splits)
  show ?thesis
  proof (cases "scanAfter fs (data st) key (atom el) (after el)")
    case Through
    with assms el have notS: "key \<notin> S" by (auto simp: stuck_def)
    from data_initField [OF False] obtain v where
      "data (initField C inst key el st) = (data st)(key \<mapsto> v)" by blast
    with assms False el Through notS show ?thesis
      by (auto simp: visit_def Let_def queue_initField split: if_splits)
  next
    case Wait
    with assms(3) False el have "data st' = data st"
      "set (queue st') = insert key (set (queue st))"
      by (auto simp: visit_def Let_def)
    with assms(2) show ?thesis by auto
  next
    case (Throw e)
    with assms False el show ?thesis by (auto simp: visit_def Let_def)
  qed
qed

lemma sweep_stuck:
  "stuck fs S \<Longrightarrow> dom (data st) \<inter> S = {} \<Longrightarrow> sweep C fs inst l st = Inr st' \<Longrightarrow>
     dom (data st') \<inter> S = {} \<and> set l \<inter> S \<subseteq> set (queue st')
       \<and> set (queue st) \<inter> S \<subseteq> set (queue st')"
proof (induction l arbitrary: st)
  case Nil
  then show ?case by simp
next
  case (Cons key keys)
  from Cons.prems(3) obtain st1 where v: "visit C fs inst key st = Inr st1"
    and s: "sweep C fs inst keys st1 = Inr st'"
    by (auto split: sum.splits)
  from visit_stuck [OF Cons.prems(1,2) v]
  have a: "dom (data st1) \<inter> S = {}" and b: "key \<in> S \<longrightarrow> key \<in> set (queue st1)"
    and c: "set (queue st) \<inter> S \<subseteq> set (queue st1)" by auto
  from Cons.IH [OF Cons.prems(1) a s] b c show ?case by auto
qed

lemma sweeps_stuck:
  assumes "sweeps C fs inst fl st = Some r" "stuck fs S" "dom (data st) \<inter> S = {}"
    "set fl \<inter> S \<noteq> {}"
  shows "\<exists>e. r = Inl e"
proof -
  have "stuck fs S \<longrightarrow> dom (data st) \<inter> S = {} \<longrightarrow> set fl \<inter> S \<noteq> {} \<longrightarrow> (\<exists>e. r = Inl e)"
  proof (rule sweeps.raw_induct [where P = "\<lambda>C fs inst fl st r.
      stuck fs S \<longrightarrow> dom (data st) \<inter> S = {} \<longrightarrow> set fl \<inter> S \<noteq> {} \<longrightarrow> (\<exists>e. r = Inl e)", OF _ assms(1)])
    fix sweeps' C fs inst fl st r
    assume IH: "\<And>C fs inst fl st r. sweeps' C fs inst fl st = Some r \<Longrightarrow>
      stuck fs S \<longrightarrow> dom (data st) \<inter> S = {} \<longrightarrow> set fl \<inter> S \<noteq> {} \<longrightarrow> (\<exists>e. r = Inl e)"
    and eq: "(case sweep C fs inst fl st of Inl e \<Rightarrow> Some (Inl e)
      | Inr st' \<Rightarrow> if atomQueue st' = [] \<and> queue st' = [] then Some (Inr st')
          else sweeps' C fs inst fl st') = Some r"
    show "stuck fs S \<longrightarrow> dom (data st) \<inter> S = {} \<longrightarrow> set fl \<inter> S \<noteq> {} \<longrightarrow> (\<exists>e. r = Inl e)"
    proof (intro impI)
      assume s: "stuck fs S" and d: "dom (data st) \<inter> S = {}" and n: "set fl \<inter> S \<noteq> {}"
      show "\<exists>e. r = Inl e"
      proof (cases "sweep C fs inst fl st")
        case (Inl e)
        with eq show ?thesis by auto
      next
        case (Inr st1)
        from sweep_stuck [OF s d Inr] n
        have a: "dom (data st1) \<inter> S = {}" and q: "queue st1 \<noteq> []" by auto
        with eq Inr have "sweeps' C fs inst fl st1 = Some r" by simp
        from IH [OF this] s a n show ?thesis by blast
      qed
    qed
  qed
  with assms show ?thesis by blast
qed



lemma set_sortAtom: "set (sortAtom inst acc p) = insert (fst p) (set acc)"
  by (cases p) (simp add: sortAtom_def)

lemma set_foldl_sortAtom:
  "set (foldl (sortAtom inst) acc fs) = set acc \<union> fst ` set fs"
  by (induction fs arbitrary: acc) (auto simp: set_sortAtom)

lemma set_sortAtoms: "set (sortAtoms fs inst) = fst ` set fs"
  by (simp add: sortAtoms_def set_foldl_sortAtom)

lemma set_sortAtoms_dom: "set (sortAtoms fs inst) = dom (map_of fs)"
  by (simp add: set_sortAtoms dom_map_of_conv_image_fst)

lemma scanAfter_Throw:
  "scanAfter fs d key a ws = Throw e \<Longrightarrow>
     (\<exists>w\<in>set ws. e = ReferenceError w \<and> map_of fs w = None) \<or>
     (\<exists>w\<in>set ws. \<exists>wf. e = Error key w \<and> a \<and> map_of fs w = Some wf \<and> \<not> atom wf)"
  by (induction ws) (auto split: option.splits if_splits)

lemma visit_Inl:
  assumes "visit C fs inst key st = Inl (e, st')" "key \<in> dom (map_of fs)"
  shows "raised fs e \<and> st' = st"
proof -
  from assms obtain el where el: "map_of fs key = Some el" by auto
  with assms(1) have nd: "key \<notin> dom (data st)"
    and t: "scanAfter fs (data st) key (atom el) (after el) = Throw e" and s: "st' = st"
    by (auto simp: visit_def Let_def split: if_splits scan.splits)
  from scanAfter_Throw [OF t] el show ?thesis
    unfolding raised_def s by (fastforce split: error.splits)
qed

lemma sweep_Inl:
  "sweep C fs inst l st = Inl (e, st') \<Longrightarrow> set l \<subseteq> dom (map_of fs) \<Longrightarrow> raised fs e"
proof (induction l arbitrary: st)
  case Nil
  then show ?case by simp
next
  case (Cons key keys)
  show ?case
  proof (cases "visit C fs inst key st")
    case (Inl p)
    with Cons.prems show ?thesis using visit_Inl [of C fs inst key st e st'] by auto
  next
    case (Inr st1)
    with Cons show ?thesis by auto
  qed
qed

lemma sweeps_Inl:
  assumes "sweeps C fs inst fl st = Some r" "set fl \<subseteq> dom (map_of fs)" "r = Inl (e, st')"
  shows "raised fs e"
proof -
  have "set fl \<subseteq> dom (map_of fs) \<longrightarrow> (\<forall>e st'. r = Inl (e, st') \<longrightarrow> raised fs e)"
  proof (rule sweeps.raw_induct [where P = "\<lambda>C fs inst fl st r.
      set fl \<subseteq> dom (map_of fs) \<longrightarrow> (\<forall>e st'. r = Inl (e, st') \<longrightarrow> raised fs e)", OF _ assms(1)])
    fix sweeps' C fs inst fl st r
    assume IH: "\<And>C fs inst fl st r. sweeps' C fs inst fl st = Some r \<Longrightarrow>
      set fl \<subseteq> dom (map_of fs) \<longrightarrow> (\<forall>e st'. r = Inl (e, st') \<longrightarrow> raised fs e)"
    and eq: "(case sweep C fs inst fl st of Inl e \<Rightarrow> Some (Inl e)
      | Inr st' \<Rightarrow> if atomQueue st' = [] \<and> queue st' = [] then Some (Inr st')
          else sweeps' C fs inst fl st') = Some r"
    show "set fl \<subseteq> dom (map_of fs) \<longrightarrow> (\<forall>e st'. r = Inl (e, st') \<longrightarrow> raised fs e)"
    proof (cases "sweep C fs inst fl st")
      case (Inl p)
      with eq show ?thesis using sweep_Inl [of C fs inst fl st] by auto
    next
      case (Inr st1)
      with eq IH [of C fs inst fl st1 r] show ?thesis by (auto split: if_splits)
    qed
  qed
  with assms show ?thesis by blast
qed


lemma cycle_stuck:
  assumes "\<forall>k\<in>S. \<forall>el. map_of fs k = Some el \<longrightarrow> (\<exists>w\<in>set (after el). w \<in> S)"
  shows "stuck fs S"
  unfolding stuck_def
proof (intro ballI allI impI)
  fix k and d :: dict and el
  assume k: "k \<in> S" and d: "dom d \<inter> S = {}" and el: "map_of fs k = Some el"
  from assms k el obtain w where w: "w \<in> set (after el)" "w \<in> S" by blast
  show "scanAfter fs d k (atom el) (after el) \<noteq> Through"
  proof
    assume "scanAfter fs d k (atom el) (after el) = Through"
    from scanAfter_Through [OF this w(1)] have "w \<in> dom d" by simp
    with d w(2) show False by blast
  qed
qed

lemma cycle_diverges:
  assumes wf: "\<forall>(k, el) \<in> set fs. \<forall>w \<in> set (after el).
                 \<exists>wf. map_of fs w = Some wf \<and> (atom el \<longrightarrow> atom wf)"
    and S: "S \<noteq> {}" "S \<subseteq> fst ` set fs" "S \<inter> dom d = {}"
    and cyc: "\<forall>k\<in>S. \<forall>el. map_of fs k = Some el \<longrightarrow> (\<exists>w\<in>set (after el). w \<in> S)"
  shows "initDataObject C fs c inst d = None"
proof (rule ccontr)
  let ?st = "\<lparr>ctx = c, data = d, queue = [], atomQueue = []\<rparr>"
  let ?fl = "sortAtoms fs inst"
  assume "initDataObject C fs c inst d \<noteq> None"
  then obtain r where r: "sweeps C fs inst ?fl ?st = Some r"
    by (auto simp: initDataObject_def split: option.splits)
  have 1: "dom (data ?st) \<inter> S = {}" using S(3) by auto
  have 2: "set ?fl \<inter> S \<noteq> {}" using S(1,2) by (auto simp: set_sortAtoms)
  from sweeps_stuck [OF r cycle_stuck [OF cyc] 1 2] obtain e st' where e: "r = Inl (e, st')"
    by auto
  have "raised fs e"
    by (rule sweeps_Inl [OF r _ e]) (simp add: set_sortAtoms_dom)
  then show False
  proof (cases e)
    case (ReferenceError w)
    with \<open>raised fs e\<close> obtain k el where "map_of fs w = None" "map_of fs k = Some el"
      "w \<in> set (after el)" by (auto simp: raised_def)
    with wf map_of_SomeD [of fs k el] show False by fastforce
  next
    case (Error k w)
    with \<open>raised fs e\<close> obtain el wf' where "map_of fs k = Some el" "atom el"
      "w \<in> set (after el)" "map_of fs w = Some wf'" "\<not> atom wf'" by (auto simp: raised_def)
    with wf map_of_SomeD [of fs k el] show False by fastforce
  next
    case (TypeError k)
    with \<open>raised fs e\<close> show False by (simp add: raised_def)
  qed
qed



lemma visit_Inv:
  assumes "Inv fs st" "visit C fs inst key st = Inr st'"
  shows "Inv fs st' \<and> dom (data st) \<subseteq> dom (data st') \<and> dom (data st') \<subseteq> insert key (dom (data st))"
proof (cases "key \<in> dom (data st)")
  case True
  with assms show ?thesis by (auto simp: visit_def)
next
  case False
  with assms(2) obtain el where el: "map_of fs key = Some el"
    by (auto simp: visit_def split: option.splits)
  show ?thesis
  proof (cases "scanAfter fs (data st) key (atom el) (after el)")
    case Through
    from data_initField [OF False] obtain v where
      d: "data (initField C inst key el st) = (data st)(key \<mapsto> v)" by blast
    show ?thesis
    proof (cases "atom el \<or> atomQueue st = []")
      case True
      with assms(2) False el Through have "st' = initField C inst key el st"
        by (auto simp: visit_def Let_def)
      with assms(1) d show ?thesis
        by (auto simp: Inv_def queue_initField)
    next
      case False
      with assms(2) \<open>key \<notin> dom (data st)\<close> el Through have "st' = st"
        by (auto simp: visit_def Let_def)
      with assms(1) show ?thesis by auto
    qed
  next
    case Wait
    with assms(2) False el have "data st' = data st"
      "set (queue st') = insert key (set (queue st))"
      "set (atomQueue st') \<subseteq> (if atom el then {key} else {}) \<union> set (atomQueue st)"
      by (auto simp: visit_def Let_def)
    with assms(1) False el show ?thesis
      unfolding Inv_def by (cases "atom el") (simp_all add: subset_iff, blast+)
  next
    case (Throw e)
    with assms False el show ?thesis by (auto simp: visit_def Let_def)
  qed
qed

lemma sweep_Inv:
  "Inv fs st \<Longrightarrow> sweep C fs inst l st = Inr st' \<Longrightarrow>
     Inv fs st' \<and> dom (data st) \<subseteq> dom (data st')"
proof (induction l arbitrary: st)
  case Nil
  then show ?case by simp
next
  case (Cons key keys)
  from Cons.prems(2) obtain st1 where v: "visit C fs inst key st = Inr st1"
    and s: "sweep C fs inst keys st1 = Inr st'"
    by (auto split: sum.splits)
  from visit_Inv [OF Cons.prems(1) v] Cons.IH [OF _ s] show ?case by blast
qed

lemma scanAfter_not_Wait:
  "\<forall>w\<in>set ws. \<forall>wf. map_of fs w = Some wf \<longrightarrow> (a \<longrightarrow> atom wf) \<longrightarrow> w \<in> dom d \<Longrightarrow>
     scanAfter fs d key a ws \<noteq> Wait"
  by (induction ws) (auto split: option.splits)

lemma visit_ready:
  assumes "Inv fs st" "ready fs (data st) m"
  shows "(\<exists>e. visit C fs inst m st = Inl e) \<or>
         (\<exists>st'. visit C fs inst m st = Inr st' \<and> m \<in> dom (data st'))"
proof -
  from assms(2) obtain el where el: "map_of fs m = Some el" and nd: "m \<notin> dom (data st)"
    and deps: "\<forall>w\<in>set (after el). \<forall>wf. map_of fs w = Some wf \<longrightarrow> (atom el \<longrightarrow> atom wf)
                 \<longrightarrow> w \<in> dom (data st)"
    and at: "atom el \<or> (\<forall>k el'. map_of fs k = Some el' \<longrightarrow> atom el' \<longrightarrow> k \<in> dom (data st))"
    by (auto simp: ready_def)
  have can: "atom el \<or> atomQueue st = []"
  proof (cases "atom el")
    case False
    with at have "\<forall>k el'. map_of fs k = Some el' \<longrightarrow> atom el' \<longrightarrow> k \<in> dom (data st)" by simp
    with assms(1) have "\<forall>x. x \<notin> set (atomQueue st)" unfolding Inv_def by blast
    then show ?thesis by (cases "atomQueue st") auto
  qed simp
  show ?thesis
  proof (cases "scanAfter fs (data st) m (atom el) (after el)")
    case Through
    from data_initField [OF nd] obtain v where
      "data (initField C inst m el st) = (data st)(m \<mapsto> v)" by blast
    with Through el nd can show ?thesis by (auto simp: visit_def Let_def)
  next
    case Wait
    with scanAfter_not_Wait [OF deps] show ?thesis by blast
  next
    case (Throw e)
    with el nd show ?thesis by (auto simp: visit_def Let_def)
  qed
qed

lemma ready_mono:
  "ready fs d m \<Longrightarrow> dom d \<subseteq> dom d' \<Longrightarrow> m \<notin> dom d' \<Longrightarrow> ready fs d' m"
  unfolding ready_def by blast

lemma sweep_ready:
  "Inv fs st \<Longrightarrow> ready fs (data st) m \<Longrightarrow> m \<in> set l \<Longrightarrow>
     (\<exists>e. sweep C fs inst l st = Inl e) \<or>
     (\<exists>st'. sweep C fs inst l st = Inr st' \<and> m \<in> dom (data st'))"
proof (induction l arbitrary: st)
  case Nil
  then show ?case by simp
next
  case (Cons key keys)
  show ?case
  proof (cases "visit C fs inst key st")
    case (Inl e)
    then show ?thesis by simp
  next
    case (Inr st1)
    from visit_Inv [OF Cons.prems(1) Inr]
    have inv1: "Inv fs st1" and mono: "dom (data st) \<subseteq> dom (data st1)" by auto
    show ?thesis
    proof (cases "m \<in> dom (data st1)")
      case True
      show ?thesis
      proof (cases "sweep C fs inst keys st1")
        case (Inl e)
        with Inr show ?thesis by simp
      next
        case st': (Inr st')
        from sweep_Inv [OF inv1 st'] True Inr st' show ?thesis by auto
      qed
    next
      case False
      have "key \<noteq> m"
      proof
        assume "key = m"
        with visit_ready [OF Cons.prems(1,2), of C inst] Inr False show False by auto
      qed
      with Cons.prems(3) have "m \<in> set keys" by simp
      from Cons.IH [OF inv1 ready_mono [OF Cons.prems(2) mono False] this] Inr
      show ?thesis by simp
    qed
  qed
qed

lemma exists_ready:
  assumes rank: "\<And>k el w. map_of fs k = Some el \<Longrightarrow> w \<in> set (after el) \<Longrightarrow>
                   map_of fs w \<noteq> None \<Longrightarrow> rank w < (rank k :: nat)"
    and ne: "dom (map_of fs) - dom d \<noteq> {}"
  shows "\<exists>m. ready fs d m"
proof (cases "\<exists>k el. map_of fs k = Some el \<and> atom el \<and> k \<notin> dom d")
  case True
  then obtain k0 where "\<exists>el. map_of fs k0 = Some el \<and> atom el \<and> k0 \<notin> dom d" by blast
  from ex_has_least_nat [of "\<lambda>k. \<exists>el. map_of fs k = Some el \<and> atom el \<and> k \<notin> dom d" k0 rank, OF this]
  obtain m el where m: "map_of fs m = Some el" "atom el" "m \<notin> dom d"
    and least: "\<forall>y. (\<exists>el. map_of fs y = Some el \<and> atom el \<and> y \<notin> dom d) \<longrightarrow> rank m \<le> rank y"
    by blast
  have "\<forall>w\<in>set (after el). \<forall>wf. map_of fs w = Some wf \<longrightarrow> (atom el \<longrightarrow> atom wf) \<longrightarrow> w \<in> dom d"
  proof (intro ballI allI impI)
    fix w wf
    assume w: "w \<in> set (after el)" "map_of fs w = Some wf" "atom el \<longrightarrow> atom wf"
    with m have "atom wf" by simp
    from rank [OF m(1) w(1)] w(2) have "rank w < rank m" by simp
    with least w(2) \<open>atom wf\<close> show "w \<in> dom d" by (metis not_le)
  qed
  with m show ?thesis unfolding ready_def by blast
next
  case False
  from ne obtain k0 where "k0 \<in> dom (map_of fs) \<and> k0 \<notin> dom d" by blast
  from ex_has_least_nat [of "\<lambda>k. k \<in> dom (map_of fs) \<and> k \<notin> dom d" k0 rank, OF this]
  obtain m where m: "m \<in> dom (map_of fs)" "m \<notin> dom d"
    and least: "\<forall>y. y \<in> dom (map_of fs) \<and> y \<notin> dom d \<longrightarrow> rank m \<le> rank y"
    by blast
  from m(1) obtain el where el: "map_of fs m = Some el" by blast
  have "\<forall>w\<in>set (after el). \<forall>wf. map_of fs w = Some wf \<longrightarrow> (atom el \<longrightarrow> atom wf) \<longrightarrow> w \<in> dom d"
  proof (intro ballI allI impI)
    fix w wf
    assume w: "w \<in> set (after el)" "map_of fs w = Some wf"
    from rank [OF el w(1)] w(2) have "rank w < rank m" by simp
    with least w(2) show "w \<in> dom d" by (metis domI not_le)
  qed
  moreover from False have "\<forall>k el'. map_of fs k = Some el' \<longrightarrow> atom el' \<longrightarrow> k \<in> dom d" by blast
  ultimately show ?thesis using el m(2) unfolding ready_def by blast
qed

lemma sweeps_terminates:
  assumes rank: "\<And>k el w. map_of fs k = Some el \<Longrightarrow> w \<in> set (after el) \<Longrightarrow>
                   map_of fs w \<noteq> None \<Longrightarrow> rank w < (rank k :: nat)"
    and fl: "set fl = dom (map_of fs)"
  shows "Inv fs st \<Longrightarrow> \<exists>r. sweeps C fs inst fl st = Some r"
proof (induction "card (dom (map_of fs) - dom (data st))" arbitrary: st rule: less_induct)
  case less
  show ?case
  proof (cases "sweep C fs inst fl st")
    case (Inl e)
    then show ?thesis by (subst sweeps.simps) simp
  next
    case (Inr st1)
    from sweep_Inv [OF less.prems Inr]
    have inv1: "Inv fs st1" and mono: "dom (data st) \<subseteq> dom (data st1)" by auto
    show ?thesis
    proof (cases "atomQueue st1 = [] \<and> queue st1 = []")
      case True
      with Inr show ?thesis by (subst sweeps.simps) simp
    next
      case False
      with inv1 have "dom (map_of fs) - dom (data st1) \<noteq> {}"
        unfolding Inv_def by (cases "queue st1"; cases "atomQueue st1") auto
      with mono have ne: "dom (map_of fs) - dom (data st) \<noteq> {}" by blast
      have "\<exists>m. ready fs (data st) m"
      proof (rule exists_ready)
        show "\<And>k el w. map_of fs k = Some el \<Longrightarrow> w \<in> set (after el) \<Longrightarrow>
                map_of fs w \<noteq> None \<Longrightarrow> rank w < rank k" by (rule rank)
        show "dom (map_of fs) - dom (data st) \<noteq> {}" by (rule ne)
      qed
      then obtain m where m: "ready fs (data st) m" by blast
      then have mm: "m \<in> dom (map_of fs)" "m \<notin> dom (data st)" by (auto simp: ready_def)
      with fl have "m \<in> set fl" by simp
      from sweep_ready [OF less.prems m this, of C inst] Inr have "m \<in> dom (data st1)" by auto
      with mm mono have "dom (map_of fs) - dom (data st1) \<subset> dom (map_of fs) - dom (data st)"
        by blast
      then have "card (dom (map_of fs) - dom (data st1)) < card (dom (map_of fs) - dom (data st))"
        by (intro psubset_card_mono) (auto simp: finite_dom_map_of)
      from less.hyps [OF this inv1] obtain r where "sweeps C fs inst fl st1 = Some r" by blast
      with Inr False show ?thesis by (subst sweeps.simps) auto
    qed
  qed
qed



lemma Inv_initial: "Inv fs \<lparr>ctx = c, data = d, queue = [], atomQueue = []\<rparr>"
  by (simp add: Inv_def)

lemma initDataObject_terminates:
  assumes rank: "\<And>k el w. map_of fs k = Some el \<Longrightarrow> w \<in> set (after el) \<Longrightarrow>
                   map_of fs w \<noteq> None \<Longrightarrow> rank w < (rank k :: nat)"
  shows "\<exists>r. sweeps C fs inst (sortAtoms fs inst) \<lparr>ctx = c, data = d, queue = [], atomQueue = []\<rparr> = Some r"
proof (rule sweeps_terminates)
  show "\<And>k el w. map_of fs k = Some el \<Longrightarrow> w \<in> set (after el) \<Longrightarrow>
          map_of fs w \<noteq> None \<Longrightarrow> rank w < rank k" by (rule rank)
  show "set (sortAtoms fs inst) = dom (map_of fs)" by (rule set_sortAtoms_dom)
  show "Inv fs \<lparr>ctx = c, data = d, queue = [], atomQueue = []\<rparr>" by (rule Inv_initial)
qed

lemma raised_cases:
  assumes "raised fs e"
  obtains (Reference) w k el where "e = ReferenceError w" "map_of fs w = None"
      "map_of fs k = Some el" "w \<in> set (after el)"
    | (Atom) k w el wel where "e = Error k w" "map_of fs k = Some el" "atom el"
      "w \<in> set (after el)" "map_of fs w = Some wel" "\<not> atom wel"
  using assms by (cases e) (auto simp: raised_def)


text \<open>
  Claim C8, as amended. Let the \<open>after\<close> names be fields, ordered without a cycle. If
  an atom \<open>x\<close> that is not yet in \<open>data\<close> names in its \<open>after\<close> set a field that is
  not an atom, then \<open>initDataObject\<close> returns by throwing the ordering error \<open>Error\<close>
  for an atom and a non-atom it waits for. The error is thrown when a sweep reaches the
  atom: the state it carries is the one reached then, and fields that come earlier in
  the field list may already be initialised in it.
\<close>

theorem initDataObject_atom_after_non_atom:
  assumes rank: "\<And>k el w. map_of fs k = Some el \<Longrightarrow> w \<in> set (after el) \<Longrightarrow>
                   map_of fs w \<noteq> None \<Longrightarrow> rank w < (rank k :: nat)"
    and declared: "\<And>k el w. map_of fs k = Some el \<Longrightarrow> w \<in> set (after el) \<Longrightarrow>
                   map_of fs w \<noteq> None"
    and x: "map_of fs x = Some el" "atom el" "x \<notin> dom d" "w \<in> set (after el)"
           "map_of fs w = Some wel" "\<not> atom wel"
  shows "\<exists>k u st. initDataObject C fs c inst d = Some (Inl (Error k u, st))
           \<and> raised fs (Error k u)"
proof -
  let ?st = "\<lparr>ctx = c, data = d, queue = [], atomQueue = []\<rparr>"
  let ?fl = "sortAtoms fs inst"
  from initDataObject_terminates [of fs rank C inst c d] rank
  obtain r where r: "sweeps C fs inst ?fl ?st = Some r" by blast
  have st: "stuck fs {x}"
    unfolding stuck_def using x scanAfter_Through [of fs _ x "atom el" "after el" w] by auto
  have 1: "dom (data ?st) \<inter> {x} = {}" using x(3) by auto
  have 2: "set ?fl \<inter> {x} \<noteq> {}" using x(1) by (auto simp: set_sortAtoms_dom)
  from sweeps_stuck [OF r st 1 2] obtain e st' where e: "r = Inl (e, st')" by auto
  have re: "raised fs e"
    by (rule sweeps_Inl [OF r _ e]) (simp add: set_sortAtoms_dom)
  then have "\<exists>k u. e = Error k u"
  proof (cases rule: raised_cases)
    case (Reference w k el)
    from declared [OF Reference(3,4)] Reference(2) show ?thesis by simp
  next
    case (Atom k w el wel)
    then show ?thesis by simp
  qed
  with r e re show ?thesis by (auto simp: initDataObject_def)
qed


text \<open>
  For a field map whose \<open>after\<close> names are fields, ordered without a cycle, and whose
  atoms wait for atoms only, \<open>initDataObject\<close> returns, and returns a data object.
\<close>

theorem initDataObject_valid_returns:
  assumes rank: "\<And>k el w. map_of fs k = Some el \<Longrightarrow> w \<in> set (after el) \<Longrightarrow>
                   map_of fs w \<noteq> None \<Longrightarrow> rank w < (rank k :: nat)"
    and declared: "\<And>k el w. map_of fs k = Some el \<Longrightarrow> w \<in> set (after el) \<Longrightarrow>
                   map_of fs w \<noteq> None"
    and atoms: "\<And>k el w wf. map_of fs k = Some el \<Longrightarrow> atom el \<Longrightarrow> w \<in> set (after el) \<Longrightarrow>
                   map_of fs w = Some wf \<Longrightarrow> atom wf"
  shows "\<exists>c' d'. initDataObject C fs c inst d = Some (Inr (c', d'))"
proof -
  let ?st = "\<lparr>ctx = c, data = d, queue = [], atomQueue = []\<rparr>"
  let ?fl = "sortAtoms fs inst"
  from initDataObject_terminates [of fs rank C inst c d] rank
  obtain r where r: "sweeps C fs inst ?fl ?st = Some r" by blast
  show ?thesis
  proof (cases r)
    case (Inl p)
    obtain e st' where p: "p = (e, st')" by (cases p)
    have "raised fs e"
      by (rule sweeps_Inl [OF r _]) (simp_all add: set_sortAtoms_dom Inl p)
    then have False
    proof (cases rule: raised_cases)
      case (Reference w k el)
      from declared [OF Reference(3,4)] Reference(2) show ?thesis by simp
    next
      case (Atom k w el wel)
      from atoms [OF Atom(2,3,4,5)] Atom(6) show ?thesis by simp
    qed
    then show ?thesis ..
  next
    case (Inr st')
    with r show ?thesis by (simp add: initDataObject_def)
  qed
qed











subsection \<open>The claims on concrete field maps\<close>

lemmas initDataObject_eval = initDataObject_def sortAtoms_def sortAtom_def sweeps.simps
  visit_def initField_def Set_add_def Set_delete_def lookup_def ctx0_def cloneRef_def

text \<open>
  Claim C2 (the returned data object has an entry for every field of a valid field map)
  fails on the code. In \<open>fieldsSkip\<close> every \<open>after\<close> name is a field, atoms wait for
  atoms only and there is no cycle; the field list is \<open>x\<close>, \<open>n\<close>, \<open>w\<close>, \<open>y\<close>. In the
  first sweep \<open>x\<close> and \<open>w\<close> are queued and \<open>y\<close> is initialised; in the second \<open>x\<close>
  is initialised, \<open>n\<close> is passed over because the atom \<open>w\<close> is still queued (and
  \<open>n\<close> is not put in a queue), then \<open>w\<close> is initialised, both queues are empty and
  the loop ends: the data object returned has no entry for \<open>n\<close>.
\<close>

theorem initDataObject_leaves_field_out:
  "initDataObject cloneRef fieldsSkip ctx0 Map.empty Map.empty =
     Some (Inr (ctx0\<lparr>activeField := Some ''w''\<rparr>,
                [''y'' \<mapsto> Num 1, ''x'' \<mapsto> Num 4, ''w'' \<mapsto> Num 2]))"
  by (simp add: initDataObject_eval fieldsSkip_def)

text \<open>The hypotheses of \<open>initDataObject_valid_returns\<close> hold for \<open>fieldsSkip\<close>.\<close>

theorem initDataObject_valid_returns_witness:
  "\<exists>c' d'. initDataObject cloneRef fieldsSkip ctx0 Map.empty Map.empty = Some (Inr (c', d'))"
  by (rule initDataObject_valid_returns [where rank = "\<lambda>k. if k = ''y'' then 0 else 1"])
     (auto simp: fieldsSkip_def split: if_splits)

text \<open>
  The example scenario of the specification: field \<open>a\<close> with default 1, field \<open>b\<close>
  after \<open>a\<close> with \<open>init\<close> returning \<open>data.a + 1\<close>, in either order of declaration.
\<close>

theorem initDataObject_example:
  "initDataObject cloneRef fieldsAB ctx0 Map.empty Map.empty =
     Some (Inr (ctx0\<lparr>activeField := Some ''b''\<rparr>, [''a'' \<mapsto> Num 1, ''b'' \<mapsto> Num 2]))
   \<and> initDataObject cloneRef (rev fieldsAB) ctx0 Map.empty Map.empty =
     Some (Inr (ctx0\<lparr>activeField := Some ''b''\<rparr>, [''a'' \<mapsto> Num 1, ''b'' \<mapsto> Num 2]))"
  by (simp add: initDataObject_eval fieldsAB_def)

text \<open>
  Claim C3, as amended. Let every \<open>after\<close> name be a field and atoms wait for atoms
  only, so that no error is thrown. If there is a nonempty set \<open>S\<close> of fields, none of
  them in \<open>data\<close>, each of which waits for a field of \<open>S\<close> (a dependency cycle, or
  fields that wait for one), then \<open>initDataObject\<close> does not return: it detects
  nothing, throws nothing and repeats the sweep for ever.
\<close>

theorem initDataObject_cycle_never_returns:
  assumes "\<forall>(k, el) \<in> set fs. \<forall>w \<in> set (after el).
             \<exists>wel. map_of fs w = Some wel \<and> (atom el \<longrightarrow> atom wel)"
    and "S \<noteq> {}" "S \<subseteq> fst ` set fs" "S \<inter> dom d = {}"
    and "\<forall>k\<in>S. \<forall>el. map_of fs k = Some el \<longrightarrow> (\<exists>w\<in>set (after el). w \<in> S)"
  shows "initDataObject fastClone fs c inst d = None"
  using assms by (rule cycle_diverges)

theorem initDataObject_cycle_never_returns_witness:
  "initDataObject cloneRef fieldsCycle ctx0 Map.empty [''q'' \<mapsto> Num 0] = None"
  by (rule initDataObject_cycle_never_returns [where S = "{''a'', ''b''}"])
     (auto simp: fieldsCycle_def)

text \<open>
  Claim C3 as stated fails: for two fields that wait for each other the call is not an
  error, it is a run that never returns.
\<close>

theorem initDataObject_cycle_not_detected:
  "initDataObject cloneRef fieldsCycle ctx0 Map.empty Map.empty = None"
  by (rule cycle_diverges [where S = "{''a'', ''b''}"]) (auto simp: fieldsCycle_def)





text \<open>
  Claim C8 as stated fails: the ordering error of the atom \<open>x\<close> is thrown after the atom
  \<open>y\<close>, which comes first in the field list, has been initialised; the data object is
  not empty at the throw.
\<close>

theorem initDataObject_atom_error_after_init:
  "initDataObject cloneRef fieldsOrder ctx0 Map.empty Map.empty =
     Some (Inl (Error ''x'' ''n'',
       \<lparr>ctx = ctx0\<lparr>activeField := Some ''y''\<rparr>, data = [''y'' \<mapsto> Num 3],
        queue = [], atomQueue = []\<rparr>))"
  by (simp add: initDataObject_eval fieldsOrder_def)

theorem initDataObject_atom_after_non_atom_witness:
  "\<exists>k u st. initDataObject cloneRef fieldsOrder ctx0 Map.empty Map.empty =
      Some (Inl (Error k u, st)) \<and> raised fieldsOrder (Error k u)"
  by (rule initDataObject_atom_after_non_atom
        [where rank = "\<lambda>k. if k = ''x'' then 1 else 0" and x = "''x''" and w = "''n''"])
     (auto simp: fieldsOrder_def split: if_splits)

end
